theory Spec2Isabelle
  imports Main
begin

section \<open>Delegation to the classic docker CLI: \<^verbatim>\<open>cli/mobycli/exec.go\<close>\<close>

text \<open>
  A Go \<^verbatim>\<open>string\<close> is a sequence of bytes; it is modelled as \<^typ>\<open>string\<close>, a list of
  8-bit characters. Indexing, slicing and \<^verbatim>\<open>len\<close> count bytes, as \<^const>\<open>take\<close>,
  \<^const>\<open>drop\<close> and \<^const>\<open>length\<close> do.
\<close>

subsection \<open>The functions of Go's \<^verbatim>\<open>strings\<close> package that the file calls\<close>

definition byte :: "char \<Rightarrow> nat" where
  "byte c = of_char c"

text \<open>\<^verbatim>\<open>strings.HasPrefix(s, prefix)\<close>, and \<^verbatim>\<open>strings.HasSuffix(s, suffix)\<close> for
  the description of \<^verbatim>\<open>TrimSpace\<close> below.\<close>

definition HasPrefix :: "string \<Rightarrow> string \<Rightarrow> bool" where
  "HasPrefix s p = (take (length p) s = p)"

definition HasSuffix :: "string \<Rightarrow> string \<Rightarrow> bool" where
  "HasSuffix s p = (length p \<le> length s \<and> drop (length s - length p) s = p)"

text \<open>\<^verbatim>\<open>strings.Contains(s, substr)\<close>: \<open>substr\<close> occurs in \<open>s\<close> as a contiguous block.\<close>

fun Contains :: "string \<Rightarrow> string \<Rightarrow> bool" where
  "Contains [] sub = (sub = [])"
| "Contains (c # s) sub = (HasPrefix (c # s) sub \<or> Contains s sub)"

text \<open>\<^verbatim>\<open>strings.TrimPrefix(s, prefix)\<close>\<close>

definition TrimPrefix :: "string \<Rightarrow> string \<Rightarrow> string" where
  "TrimPrefix s p = (if HasPrefix s p then drop (length p) s else s)"

text \<open>\<^verbatim>\<open>strings.Split(s, "\n")\<close>: the pieces between the newlines, one more than there are
  newlines.\<close>

fun Split_nl :: "string \<Rightarrow> string list" where
  "Split_nl [] = [[]]"
| "Split_nl (c # s) =
     (if c = CHR 0x0A then [] # Split_nl s
      else (case Split_nl s of [] \<Rightarrow> [[c]] | l # ls \<Rightarrow> (c # l) # ls))"

text \<open>
  \<^verbatim>\<open>strings.TrimSpace(s)\<close> removes the leading and the trailing white space, as
  \<^verbatim>\<open>unicode.IsSpace\<close> defines it: the six ASCII space bytes and the runes U+0085,
  U+00A0, U+1680, U+2000 to U+200A, U+2028, U+2029, U+202F, U+205F and U+3000 in their
  UTF-8 encoding. The function decodes a rune forwards at the beginning and backwards at
  the end; a byte sequence that is not one of these encodings is no white space, so the
  string is trimmed exactly as long as it begins, or ends, with one of them.
\<close>

definition space_runes :: "string list" where
  "space_runes =
     [[CHR 0x09], [CHR 0x0A], [CHR 0x0B], [CHR 0x0C], [CHR 0x0D], [CHR 0x20],
      [CHR 0xC2, CHR 0x85], [CHR 0xC2, CHR 0xA0],
      [CHR 0xE1, CHR 0x9A, CHR 0x80],
      [CHR 0xE2, CHR 0x80, CHR 0x80], [CHR 0xE2, CHR 0x80, CHR 0x81],
      [CHR 0xE2, CHR 0x80, CHR 0x82], [CHR 0xE2, CHR 0x80, CHR 0x83],
      [CHR 0xE2, CHR 0x80, CHR 0x84], [CHR 0xE2, CHR 0x80, CHR 0x85],
      [CHR 0xE2, CHR 0x80, CHR 0x86], [CHR 0xE2, CHR 0x80, CHR 0x87],
      [CHR 0xE2, CHR 0x80, CHR 0x88], [CHR 0xE2, CHR 0x80, CHR 0x89],
      [CHR 0xE2, CHR 0x80, CHR 0x8A],
      [CHR 0xE2, CHR 0x80, CHR 0xA8], [CHR 0xE2, CHR 0x80, CHR 0xA9],
      [CHR 0xE2, CHR 0x80, CHR 0xAF],
      [CHR 0xE2, CHR 0x81, CHR 0x9F],
      [CHR 0xE3, CHR 0x80, CHR 0x80]]"

lemma space_runes_nonempty: "e \<in> set space_runes \<Longrightarrow> e \<noteq> []"
  by (auto simp: space_runes_def)

lemma find_space_prefix:
  assumes "find (HasPrefix s) space_runes = Some e"
  shows "length (drop (length e) s) < length s"
proof -
  from assms have "e \<in> set space_runes" and "HasPrefix s e"
    by (auto simp: find_Some_iff)
  with space_runes_nonempty [of e] show ?thesis
    by (cases s; cases e) (auto simp: HasPrefix_def)
qed

lemma find_space_suffix:
  assumes "find (HasSuffix s) space_runes = Some e"
  shows "length (take (length s - length e) s) < length s"
proof -
  from assms have "e \<in> set space_runes" and "HasSuffix s e"
    by (auto simp: find_Some_iff)
  with space_runes_nonempty [of e] show ?thesis
    by (cases e) (auto simp: HasSuffix_def)
qed

function TrimLeft :: "string \<Rightarrow> string" where
  "TrimLeft s =
     (case find (HasPrefix s) space_runes of
        None \<Rightarrow> s
      | Some e \<Rightarrow> TrimLeft (drop (length e) s))"
  by pat_completeness auto
termination
  by (relation "measure length") (auto dest: find_space_prefix)

function TrimRight :: "string \<Rightarrow> string" where
  "TrimRight s =
     (case find (HasSuffix s) space_runes of
        None \<Rightarrow> s
      | Some e \<Rightarrow> TrimRight (take (length s - length e) s))"
  by pat_completeness auto
termination
  by (relation "measure length") (auto dest: find_space_suffix)

definition TrimSpace :: "string \<Rightarrow> string" where
  "TrimSpace s = TrimRight (TrimLeft s)"

subsection \<open>Runes: \<^verbatim>\<open>utf8.DecodeRuneInString\<close> and \<^verbatim>\<open>utf8.EncodeRune\<close>\<close>

text \<open>
  \<open>rune_width s\<close> is the number of bytes of the first rune of \<open>s\<close> as
  \<^verbatim>\<open>utf8.DecodeRuneInString\<close> gives it: 0 for the empty string, 1 for an ASCII byte and
  for a byte that begins no well-formed encoding, otherwise the length of the encoding.
\<close>

text \<open>The length a first byte announces (1 for ASCII and for bytes that begin nothing).\<close>

definition lead_size :: "nat \<Rightarrow> nat" where
  "lead_size b =
     (if b < 0xC2 then 1 else if b < 0xE0 then 2 else if b < 0xF0 then 3
      else if b < 0xF5 then 4 else 1)"

text \<open>The range the second byte must lie in, which depends on the first.\<close>

definition second_lo :: "nat \<Rightarrow> nat" where
  "second_lo b = (if b = 0xE0 then 0xA0 else if b = 0xF0 then 0x90 else 0x80)"

definition second_hi :: "nat \<Rightarrow> nat" where
  "second_hi b = (if b = 0xED then 0x9F else if b = 0xF4 then 0x8F else 0xBF)"

definition continuation :: "nat \<Rightarrow> bool" where
  "continuation b = (0x80 \<le> b \<and> b \<le> 0xBF)"

definition rune_width :: "string \<Rightarrow> nat" where
  "rune_width s =
     (case s of
        [] \<Rightarrow> 0
      | c # r \<Rightarrow>
          (let sz = lead_size (byte c) in
           if sz = 1 then 1
           else if length s < sz then 1
           else if byte (s ! 1) < second_lo (byte c) \<or> second_hi (byte c) < byte (s ! 1) then 1
           else if sz \<le> 2 then 2
           else if \<not> continuation (byte (s ! 2)) then 1
           else if sz \<le> 3 then 3
           else if \<not> continuation (byte (s ! 3)) then 1
           else 4))"

lemma lead_size_pos: "0 < lead_size b"
  by (simp add: lead_size_def)

lemma rune_width_bounds: "s \<noteq> [] \<Longrightarrow> 0 < rune_width s \<and> rune_width s \<le> length s"
  using lead_size_pos [of "byte (hd s)"]
  by (cases s) (auto simp: rune_width_def Let_def lead_size_def Suc_le_eq split: if_splits)

text \<open>\<^verbatim>\<open>utf8.EncodeRune\<close>: the encoding of a code point; a surrogate half and a number
  beyond U+10FFFF are encoded as U+FFFD.\<close>

definition EncodeRune :: "nat \<Rightarrow> string" where
  "EncodeRune r =
     (if r < 0x80 then [char_of r]
      else if r < 0x800 then [char_of (0xC0 + r div 0x40), char_of (0x80 + r mod 0x40)]
      else if (0xD800 \<le> r \<and> r \<le> 0xDFFF) \<or> 0x10FFFF < r then [CHR 0xEF, CHR 0xBF, CHR 0xBD]
      else if r < 0x10000 then
        [char_of (0xE0 + r div 0x1000), char_of (0x80 + r div 0x40 mod 0x40),
         char_of (0x80 + r mod 0x40)]
      else
        [char_of (0xF0 + r div 0x40000), char_of (0x80 + r div 0x1000 mod 0x40),
         char_of (0x80 + r div 0x40 mod 0x40), char_of (0x80 + r mod 0x40)])"

subsection \<open>\<^verbatim>\<open>json.Unmarshal\<close> into a struct of string fields\<close>

text \<open>
  \<^verbatim>\<open>json.Unmarshal\<close> first checks that the whole input is one JSON value
  (\<^verbatim>\<open>checkValid\<close>, run by the package's scanner) and returns a syntax error otherwise;
  then it decodes the value into the struct. The check is modelled in two steps that
  accept the same inputs as the scanner: the input is cut into tokens, and the tokens are
  checked against the grammar of values with the scanner's stack of open objects and
  arrays.
\<close>

paragraph \<open>Tokens\<close>

text \<open>The token of a string carries the bytes between its quotes as they are written,
  escapes included.\<close>

datatype token =
  LBrace | RBrace | LBracket | RBracket | Colon | Comma
  | String_token string | Number_token | True_token | False_token | Null_token

text \<open>Where the scanner stands in a number: behind the sign, behind a leading zero, in
  the digits of the integer part, behind the point, in the digits of the fraction, behind
  the \<^verbatim>\<open>e\<close>, behind the sign of the exponent, in the digits of the exponent.\<close>

datatype number_state =
  stateNeg | state0 | state1 | stateDot | stateDot0 | stateE | stateESign | stateE0

datatype mode =
  Between
  | In_string string
  | In_escape string
  | In_hex nat string
  | In_number number_state
  | In_literal string token

datatype lexed = Bad | Next "token list" mode

definition json_ws :: "char \<Rightarrow> bool" where
  "json_ws c = (c \<in> set [CHR 0x20, CHR 0x09, CHR 0x0D, CHR 0x0A])"

definition digit :: "char \<Rightarrow> bool" where
  "digit c = (0x30 \<le> byte c \<and> byte c \<le> 0x39)"

definition hex_digit :: "char \<Rightarrow> bool" where
  "hex_digit c = (digit c \<or> (0x61 \<le> byte c \<and> byte c \<le> 0x66) \<or> (0x41 \<le> byte c \<and> byte c \<le> 0x46))"

text \<open>The state of a number after one more byte, when the byte belongs to the number.\<close>

fun number_step :: "number_state \<Rightarrow> char \<Rightarrow> number_state option" where
  "number_step stateNeg c =
     (if c = CHR ''0'' then Some state0 else if digit c then Some state1 else None)"
| "number_step state0 c =
     (if c = CHR ''.'' then Some stateDot
      else if c = CHR ''e'' \<or> c = CHR ''E'' then Some stateE else None)"
| "number_step state1 c =
     (if digit c then Some state1
      else if c = CHR ''.'' then Some stateDot
      else if c = CHR ''e'' \<or> c = CHR ''E'' then Some stateE else None)"
| "number_step stateDot c = (if digit c then Some stateDot0 else None)"
| "number_step stateDot0 c =
     (if digit c then Some stateDot0
      else if c = CHR ''e'' \<or> c = CHR ''E'' then Some stateE else None)"
| "number_step stateE c =
     (if c = CHR ''+'' \<or> c = CHR ''-'' then Some stateESign
      else if digit c then Some stateE0 else None)"
| "number_step stateESign c = (if digit c then Some stateE0 else None)"
| "number_step stateE0 c = (if digit c then Some stateE0 else None)"

text \<open>The states in which a number may end.\<close>

definition number_complete :: "number_state \<Rightarrow> bool" where
  "number_complete st = (st = state0 \<or> st = state1 \<or> st = stateDot0 \<or> st = stateE0)"

text \<open>A byte between two tokens: white space, punctuation, or the first byte of a
  string, a number or a literal.\<close>

definition begin_token :: "char \<Rightarrow> lexed" where
  "begin_token c =
     (if json_ws c then Next [] Between
      else if c = CHR ''{'' then Next [LBrace] Between
      else if c = CHR ''}'' then Next [RBrace] Between
      else if c = CHR ''['' then Next [LBracket] Between
      else if c = CHR '']'' then Next [RBracket] Between
      else if c = CHR '':'' then Next [Colon] Between
      else if c = CHR '','' then Next [Comma] Between
      else if c = CHR 0x22 then Next [] (In_string [])
      else if c = CHR ''-'' then Next [] (In_number stateNeg)
      else if c = CHR ''0'' then Next [] (In_number state0)
      else if digit c then Next [] (In_number state1)
      else if c = CHR ''t'' then Next [] (In_literal ''rue'' True_token)
      else if c = CHR ''f'' then Next [] (In_literal ''alse'' False_token)
      else if c = CHR ''n'' then Next [] (In_literal ''ull'' Null_token)
      else Bad)"

text \<open>
  One byte of the input. Inside a string, the bytes read so far are kept in reverse; a
  byte below \<^verbatim>\<open>0x20\<close> is refused, a backslash must be followed by one of
  \<^verbatim>\<open>" \ / b f n r t\<close> or by \<^verbatim>\<open>u\<close> and four hexadecimal digits. A number that is complete
  ends at the first byte that does not continue it, and that byte is read as a byte
  between tokens.
\<close>

fun lex_step :: "mode \<Rightarrow> char \<Rightarrow> lexed" where
  "lex_step Between c = begin_token c"
| "lex_step (In_string acc) c =
     (if c = CHR 0x22 then Next [String_token (rev acc)] Between
      else if c = CHR 0x5C then Next [] (In_escape (c # acc))
      else if byte c < 0x20 then Bad
      else Next [] (In_string (c # acc)))"
| "lex_step (In_escape acc) c =
     (if c \<in> set [CHR 0x22, CHR 0x5C, CHR ''/'', CHR ''b'', CHR ''f'', CHR ''n'', CHR ''r'',
                   CHR ''t'']
      then Next [] (In_string (c # acc))
      else if c = CHR ''u'' then Next [] (In_hex 4 (c # acc))
      else Bad)"
| "lex_step (In_hex n acc) c =
     (if \<not> hex_digit c then Bad
      else if n \<le> 1 then Next [] (In_string (c # acc))
      else Next [] (In_hex (n - 1) (c # acc)))"
| "lex_step (In_number st) c =
     (case number_step st c of
        Some st' \<Rightarrow> Next [] (In_number st')
      | None \<Rightarrow>
          if number_complete st then
            (case begin_token c of Bad \<Rightarrow> Bad | Next ts m \<Rightarrow> Next (Number_token # ts) m)
          else Bad)"
| "lex_step (In_literal rest tok) c =
     (case rest of
        [] \<Rightarrow> Bad
      | x # r \<Rightarrow>
          if c \<noteq> x then Bad
          else if r = [] then Next [tok] Between
          else Next [] (In_literal r tok))"

text \<open>The tokens of the input; \<open>None\<close> when a byte is refused or the input ends inside a
  string, a literal or an incomplete number.\<close>

fun lex :: "mode \<Rightarrow> string \<Rightarrow> token list option" where
  "lex m [] =
     (case m of
        Between \<Rightarrow> Some []
      | In_number st \<Rightarrow> if number_complete st then Some [Number_token] else None
      | _ \<Rightarrow> None)"
| "lex m (c # s) =
     (case lex_step m c of
        Bad \<Rightarrow> None
      | Next ts m' \<Rightarrow> (case lex m' s of None \<Rightarrow> None | Some r \<Rightarrow> Some (ts @ r)))"

paragraph \<open>The grammar of values\<close>

text \<open>
  What the scanner expects next, and its stack of the objects and arrays that are open.
  The scanner refuses to open a value when that would make the stack deeper than
  \<^verbatim>\<open>maxNestingDepth\<close>.
\<close>

datatype nesting = In_object | In_array

datatype expecting =
  A_value | A_value_or_close | A_key_or_close | A_key | A_colon | A_comma_or_close
  | Nothing_more

definition maxNestingDepth :: nat where
  "maxNestingDepth = 10000"

definition value_done :: "nesting list \<Rightarrow> expecting" where
  "value_done st = (if st = [] then Nothing_more else A_comma_or_close)"

definition open_value :: "nesting list \<Rightarrow> token \<Rightarrow> (expecting \<times> nesting list) option" where
  "open_value st t =
     (case t of
        LBrace \<Rightarrow>
          if length st < maxNestingDepth then Some (A_key_or_close, In_object # st) else None
      | LBracket \<Rightarrow>
          if length st < maxNestingDepth then Some (A_value_or_close, In_array # st) else None
      | String_token v \<Rightarrow> Some (value_done st, st)
      | Number_token \<Rightarrow> Some (value_done st, st)
      | True_token \<Rightarrow> Some (value_done st, st)
      | False_token \<Rightarrow> Some (value_done st, st)
      | Null_token \<Rightarrow> Some (value_done st, st)
      | _ \<Rightarrow> None)"

definition close_value :: "nesting list \<Rightarrow> (expecting \<times> nesting list) option" where
  "close_value st = (case st of [] \<Rightarrow> None | n # st' \<Rightarrow> Some (value_done st', st'))"

fun advance :: "expecting \<Rightarrow> nesting list \<Rightarrow> token \<Rightarrow> (expecting \<times> nesting list) option" where
  "advance A_value st t = open_value st t"
| "advance A_value_or_close st t = (if t = RBracket then close_value st else open_value st t)"
| "advance A_key_or_close st t =
     (case t of String_token k \<Rightarrow> Some (A_colon, st) | RBrace \<Rightarrow> close_value st | _ \<Rightarrow> None)"
| "advance A_key st t = (case t of String_token k \<Rightarrow> Some (A_colon, st) | _ \<Rightarrow> None)"
| "advance A_colon st t = (if t = Colon then Some (A_value, st) else None)"
| "advance A_comma_or_close st t =
     (case st of
        [] \<Rightarrow> None
      | In_object # st' \<Rightarrow>
          if t = Comma then Some (A_key, st) else if t = RBrace then close_value st else None
      | In_array # st' \<Rightarrow>
          if t = Comma then Some (A_value, st) else if t = RBracket then close_value st
          else None)"
| "advance Nothing_more st t = None"

fun grammar :: "expecting \<Rightarrow> nesting list \<Rightarrow> token list \<Rightarrow> bool" where
  "grammar e st [] = (e = Nothing_more)"
| "grammar e st (t # ts) =
     (case advance e st t of None \<Rightarrow> False | Some (e', st') \<Rightarrow> grammar e' st' ts)"

text \<open>\<^verbatim>\<open>checkValid\<close>: the tokens of an input that is one JSON value between optional
  white space, \<open>None\<close> for any other input.\<close>

definition checkValid :: "string \<Rightarrow> token list option" where
  "checkValid data =
     (case lex Between data of
        None \<Rightarrow> None
      | Some ts \<Rightarrow> if grammar A_value [] ts then Some ts else None)"

paragraph \<open>The value of a string\<close>

definition hex_digit_value :: "char \<Rightarrow> nat" where
  "hex_digit_value c =
     (if digit c then byte c - 0x30
      else if 0x61 \<le> byte c \<and> byte c \<le> 0x66 then byte c - 0x61 + 10
      else byte c - 0x41 + 10)"

definition hex_value :: "string \<Rightarrow> nat" where
  "hex_value hs = foldl (\<lambda>r c. r * 16 + hex_digit_value c) 0 hs"

text \<open>\<^verbatim>\<open>getu4\<close>: the number of an escape \<^verbatim>\<open>\uXXXX\<close> at the beginning of \<open>s\<close>.\<close>

definition getu4 :: "string \<Rightarrow> nat option" where
  "getu4 s =
     (if 6 \<le> length s \<and> s ! 0 = CHR 0x5C \<and> s ! 1 = CHR ''u''
         \<and> list_all hex_digit (take 4 (drop 2 s))
      then Some (hex_value (take 4 (drop 2 s))) else None)"

text \<open>The byte an escape \<^verbatim>\<open>\c\<close> stands for (\<^verbatim>\<open>\u\<close> apart).\<close>

definition unescape :: "char \<Rightarrow> char" where
  "unescape e =
     (if e = CHR ''b'' then CHR 0x08
      else if e = CHR ''f'' then CHR 0x0C
      else if e = CHR ''n'' then CHR 0x0A
      else if e = CHR ''r'' then CHR 0x0D
      else if e = CHR ''t'' then CHR 0x09
      else e)"

text \<open>
  \<^verbatim>\<open>unquoteBytes\<close> on the bytes between the quotes of a string that has passed the
  check: an escape gives the byte or the encoded rune it stands for, where an escaped
  high surrogate followed by an escaped low surrogate gives the rune of the pair and any
  other escaped surrogate gives U+FFFD; a byte that begins no well-formed encoding gives
  U+FFFD; every other rune is copied.
\<close>

function unquote :: "string \<Rightarrow> string" where
  "unquote [] = []"
| "unquote (c # s) =
     (if c = CHR 0x5C then
        (case s of
           [] \<Rightarrow> []
         | e # r \<Rightarrow>
             if e = CHR ''u'' then
               (let rr = hex_value (take 4 r); r1 = drop 4 r in
                if 0xD800 \<le> rr \<and> rr \<le> 0xDFFF then
                  (case getu4 r1 of
                     None \<Rightarrow> EncodeRune 0xFFFD @ unquote r1
                   | Some rr1 \<Rightarrow>
                       if rr < 0xDC00 \<and> 0xDC00 \<le> rr1 \<and> rr1 \<le> 0xDFFF then
                         EncodeRune ((rr - 0xD800) * 0x400 + (rr1 - 0xDC00) + 0x10000)
                           @ unquote (drop 6 r1)
                       else EncodeRune 0xFFFD @ unquote r1)
                else EncodeRune rr @ unquote r1)
             else unescape e # unquote r)
      else if byte c < 0x80 then c # unquote s
      else if rune_width (c # s) = 1 then EncodeRune 0xFFFD @ unquote s
      else take (rune_width (c # s)) (c # s) @ unquote (drop (rune_width (c # s)) (c # s)))"
  by pat_completeness auto
lemma rune_width_Cons_pos: "0 < rune_width (c # s)"
  using rune_width_bounds [of "c # s"] by simp

termination unquote
  by (relation "measure length") (auto simp: rune_width_Cons_pos)

paragraph \<open>Decoding into the struct\<close>

text \<open>
  The members of the outermost object, read behind its opening brace: the key of each
  member with what its value is. \<open>d\<close> counts the objects and arrays open inside the
  member being read, whose tokens are passed over.
\<close>

datatype member_value = String_value string | Null_value | Other_value

definition value_of :: "token \<Rightarrow> member_value" where
  "value_of t =
     (case t of
        String_token v \<Rightarrow> String_value (unquote v)
      | Null_token \<Rightarrow> Null_value
      | _ \<Rightarrow> Other_value)"

fun members :: "nat \<Rightarrow> token list \<Rightarrow> (string \<times> member_value) list" where
  "members d [] = []"
| "members (Suc d) (t # ts) =
     (if t = LBrace \<or> t = LBracket then members (Suc (Suc d)) ts
      else if t = RBrace \<or> t = RBracket then members d ts
      else members (Suc d) ts)"
| "members 0 (String_token k # Colon # v # ts) =
     (unquote k, value_of v) # members (if v = LBrace \<or> v = LBracket then 1 else 0) ts"
| "members 0 (t # ts) = (if t = RBrace then [] else members 0 ts)"

text \<open>
  A key selects the field whose name it equals, or else equals under Unicode case
  folding. The names of the fields are ASCII; the runes that fold to an ASCII letter are
  the letter in its other case, U+017F (to \<^verbatim>\<open>S\<close>) and U+212A (to \<^verbatim>\<open>K\<close>).
  \<open>fold_to_ascii\<close> puts the capital letter for each of them and leaves the other runes.
\<close>

definition to_upper :: "char \<Rightarrow> char" where
  "to_upper c = (if 0x61 \<le> byte c \<and> byte c \<le> 0x7A then char_of (byte c - 0x20) else c)"

function fold_to_ascii :: "string \<Rightarrow> string" where
  "fold_to_ascii [] = []"
| "fold_to_ascii (c # s) =
     (if HasPrefix (c # s) [CHR 0xC5, CHR 0xBF] then CHR ''S'' # fold_to_ascii (drop 1 s)
      else if HasPrefix (c # s) [CHR 0xE2, CHR 0x84, CHR 0xAA] then
        CHR ''K'' # fold_to_ascii (drop 2 s)
      else to_upper c # fold_to_ascii s)"
  by pat_completeness auto
termination
  by (relation "measure length") auto

text \<open>
  The assignments the members make to the fields named \<open>names\<close>, in the order read: a
  string is assigned, \<^verbatim>\<open>null\<close> leaves the field as it is, and any other value cannot be
  stored in a string field, which makes \<^verbatim>\<open>Unmarshal\<close> return an error
  (\<^verbatim>\<open>UnmarshalTypeError\<close>). A member that selects no field is ignored, whatever its value.
\<close>

fun assign :: "string list \<Rightarrow> (string \<times> member_value) list \<Rightarrow> (string \<times> string) list option" where
  "assign names [] = Some []"
| "assign names ((k, v) # ms) =
     (case find (\<lambda>n. fold_to_ascii n = fold_to_ascii k) names of
        None \<Rightarrow> assign names ms
      | Some n \<Rightarrow>
          (case v of
             String_value x \<Rightarrow>
               (case assign names ms of None \<Rightarrow> None | Some fs \<Rightarrow> Some ((n, x) # fs))
           | Null_value \<Rightarrow> assign names ms
           | Other_value \<Rightarrow> None))"

text \<open>
  \<^verbatim>\<open>json.Unmarshal(data, &x)\<close> for a fresh struct \<open>x\<close> with the string fields \<open>names\<close>:
  \<open>None\<close> when it returns an error, else the assignments made. An input that is not one
  JSON value is an error; so is a value that is neither an object nor \<^verbatim>\<open>null\<close>;
  \<^verbatim>\<open>null\<close> leaves the struct as it is.
\<close>

definition Unmarshal :: "string list \<Rightarrow> string \<Rightarrow> (string \<times> string) list option" where
  "Unmarshal names data =
     (case checkValid data of
        None \<Rightarrow> None
      | Some ts \<Rightarrow>
          (case ts of
             LBrace # ms \<Rightarrow> assign names (members 0 ms)
           | Null_token # rest \<Rightarrow> Some []
           | _ \<Rightarrow> None))"

text \<open>The value of a field after the assignments: the last one made to it, and the zero
  value, the empty string, when none was made.\<close>

definition field_value :: "string \<Rightarrow> (string \<times> string) list \<Rightarrow> string" where
  "field_value name fs = foldl (\<lambda>acc (n, v). if n = name then v else acc) [] fs"

subsection \<open>The world outside the process\<close>

text \<open>
  What the code reads from its environment is a parameter of the model: the operating
  system's name, the environment variables (\<^verbatim>\<open>os.Getenv\<close> gives the empty string for
  a variable that is not set), \<^verbatim>\<open>os.Executable\<close>, \<^verbatim>\<open>filepath.EvalSymlinks\<close>, the
  path \<^verbatim>\<open>filepath.Join(filepath.Dir(p), name)\<close> beside a path \<open>p\<close>, whether
  \<^verbatim>\<open>os.Stat\<close> succeeds, \<^verbatim>\<open>resolvepath.LookPath\<close> (\<open>Inl\<close> its error text), and the
  standard output a finished command gives to \<^verbatim>\<open>cmd.Output()\<close> (\<open>None\<close> when the
  command could not be started or did not exit with status 0).
\<close>

record world =
  goos :: string
  getenv :: "string \<Rightarrow> string"
  os_executable :: "string option"
  eval_symlinks :: "string \<Rightarrow> string option"
  beside :: "string \<Rightarrow> string \<Rightarrow> string"
  stat_ok :: "string \<Rightarrow> bool"
  look_path :: "string \<Rightarrow> string + string"
  cmd_output :: "string \<Rightarrow> string list \<Rightarrow> string option"

text \<open>How a call can end other than by returning: \<^verbatim>\<open>os.Exit\<close> with a status, after
  the lines written to standard error; a run-time panic on a slice bound or on an index;
  a pattern or a replacement template on which the model of \<^verbatim>\<open>regexp\<close> says nothing.\<close>

datatype stop = ProcessExit nat "string list" | PanicSliceBounds | PanicIndexRange | OutsideModel

subsection \<open>\<^verbatim>\<open>comDockerCli\<close> and \<^verbatim>\<open>findBinary\<close>: where the classic CLI is\<close>

definition ComDockerCli :: "world \<Rightarrow> string" where
  "ComDockerCli w = ''com.docker.cli'' @ (if goos w = ''windows'' then ''.exe'' else [])"

definition findBinary :: "world \<Rightarrow> string \<Rightarrow> string" where
  "findBinary w filename =
     (case os_executable w of
        None \<Rightarrow> []
      | Some currentBinaryPath \<Rightarrow>
          (case eval_symlinks w currentBinaryPath of
             None \<Rightarrow> []
           | Some resolved \<Rightarrow>
               (let binaryPath = beside w resolved filename
                in if stat_ok w binaryPath then binaryPath else [])))"

definition comDockerCli :: "world \<Rightarrow> stop + string" where
  "comDockerCli w =
     (let v = getenv w ''DOCKER_COM_DOCKER_CLI'' in
      if v \<noteq> [] then Inr v
      else
        (let execBinary = findBinary w (ComDockerCli w) in
         if execBinary = [] then
           (case look_path w (ComDockerCli w) of
              Inl err \<Rightarrow> Inl (ProcessExit 1 [err, ''Current PATH : '' @ getenv w ''PATH''])
            | Inr found \<Rightarrow> Inr found)
         else Inr execBinary))"

subsection \<open>The catalog: \<^verbatim>\<open>getContainers\<close>, \<^verbatim>\<open>getImages\<close>, \<^verbatim>\<open>getVolumes\<close>\<close>

record Container =
  ShortId :: string
  ID :: string
  Names :: string

record Image =
  img_ShortId :: string
  img_ID :: string
  Tag :: string
  Respository :: string

record Volume =
  Name :: string

text \<open>\<^verbatim>\<open>json.Unmarshal([]byte(line), &c)\<close> for a fresh \<open>c\<close> of each struct: \<open>None\<close>
  when it returns an error.\<close>

definition unmarshal_Container :: "string \<Rightarrow> Container option" where
  "unmarshal_Container line =
     (case Unmarshal [''ShortId'', ''ID'', ''Names''] line of
        None \<Rightarrow> None
      | Some fs \<Rightarrow>
          Some \<lparr>ShortId = field_value ''ShortId'' fs, ID = field_value ''ID'' fs,
                Names = field_value ''Names'' fs\<rparr>)"

definition unmarshal_Image :: "string \<Rightarrow> Image option" where
  "unmarshal_Image line =
     (case Unmarshal [''ShortId'', ''ID'', ''Tag'', ''Respository''] line of
        None \<Rightarrow> None
      | Some fs \<Rightarrow>
          Some \<lparr>img_ShortId = field_value ''ShortId'' fs, img_ID = field_value ''ID'' fs,
                Tag = field_value ''Tag'' fs, Respository = field_value ''Respository'' fs\<rparr>)"

definition unmarshal_Volume :: "string \<Rightarrow> Volume option" where
  "unmarshal_Volume line =
     (case Unmarshal [''Name''] line of
        None \<Rightarrow> None
      | Some fs \<Rightarrow> Some \<lparr>Name = field_value ''Name'' fs\<rparr>)"

text \<open>
  The loop over the lines of a listing, with the records collected so far. A line on
  which \<^verbatim>\<open>Unmarshal\<close> returns an error is passed over (\<^verbatim>\<open>continue\<close>);
  \<^verbatim>\<open>c.ID[:12]\<close> panics when \<^verbatim>\<open>c.ID\<close> has fewer than 12 bytes.
\<close>

fun containers_loop :: "string list \<Rightarrow> Container list \<Rightarrow> stop + Container list" where
  "containers_loop [] cs = Inr cs"
| "containers_loop (cStr # rest) cs =
     (case unmarshal_Container cStr of
        None \<Rightarrow> containers_loop rest cs
      | Some c \<Rightarrow>
          if length (ID c) < 12 then Inl PanicSliceBounds
          else containers_loop rest (cs @ [c\<lparr>ShortId := take 12 (ID c)\<rparr>]))"

fun images_loop :: "string list \<Rightarrow> Image list \<Rightarrow> stop + Image list" where
  "images_loop [] imgs = Inr imgs"
| "images_loop (imgStr # rest) imgs =
     (case unmarshal_Image imgStr of
        None \<Rightarrow> images_loop rest imgs
      | Some img \<Rightarrow>
          if length (TrimPrefix (img_ID img) ''sha256:'') < 12 then Inl PanicSliceBounds
          else images_loop rest
                 (imgs @ [img\<lparr>img_ShortId := take 12 (TrimPrefix (img_ID img) ''sha256:'')\<rparr>]))"

fun volumes_loop :: "string list \<Rightarrow> Volume list \<Rightarrow> stop + Volume list" where
  "volumes_loop [] vols = Inr vols"
| "volumes_loop (volStr # rest) vols =
     (case unmarshal_Volume volStr of
        None \<Rightarrow> volumes_loop rest vols
      | Some vol \<Rightarrow> volumes_loop rest (vols @ [vol]))"

definition ps_args :: "string list" where
  "ps_args = [''ps'', ''--all'', ''--no-trunc'', ''--format'',
              ''{\"ID\":\"{{ .ID }}\", \"Names\":\"{{ .Names }}\"}'']"

definition image_ls_args :: "string list" where
  "image_ls_args = [''image'', ''ls'', ''--no-trunc'', ''--format'',
     ''{\"ID\":\"{{ .ID }}\", \"Tag\":\"{{ .Tag }}\", \"Respository\":\"{{ .Repository }}\"}'']"

definition volume_ls_args :: "string list" where
  "volume_ls_args = [''volume'', ''ls'', ''--format'', ''{\"Name\":\"{{ .Name }}\"}'']"

text \<open>The lines of a listing: \<^verbatim>\<open>strings.Split(strings.TrimSpace(string(out)), "\n")\<close>.\<close>

definition listing_lines :: "string \<Rightarrow> string list" where
  "listing_lines out = Split_nl (TrimSpace out)"

definition getContainers :: "world \<Rightarrow> stop + Container list" where
  "getContainers w =
     (case comDockerCli w of
        Inl e \<Rightarrow> Inl e
      | Inr path \<Rightarrow>
          (case cmd_output w path ps_args of
             None \<Rightarrow> Inr []
           | Some out \<Rightarrow> containers_loop (listing_lines out) []))"

definition getImages :: "world \<Rightarrow> stop + Image list" where
  "getImages w =
     (case comDockerCli w of
        Inl e \<Rightarrow> Inl e
      | Inr path \<Rightarrow>
          (case cmd_output w path image_ls_args of
             None \<Rightarrow> Inr []
           | Some out \<Rightarrow> images_loop (listing_lines out) []))"

definition getVolumes :: "world \<Rightarrow> stop + Volume list" where
  "getVolumes w =
     (case comDockerCli w of
        Inl e \<Rightarrow> Inl e
      | Inr path \<Rightarrow>
          (case cmd_output w path volume_ls_args of
             None \<Rightarrow> Inr []
           | Some out \<Rightarrow> volumes_loop (listing_lines out) []))"

subsection \<open>What the loaders are expected to collect, and example worlds\<close>

text \<open>The records of the lines of a listing that decode, each with its short identifier,
  in the order of the lines.\<close>

definition parsed_containers :: "string list \<Rightarrow> Container list" where
  "parsed_containers ls =
     concat (map (\<lambda>l. case unmarshal_Container l of
                          None \<Rightarrow> []
                        | Some c \<Rightarrow> [c\<lparr>ShortId := take 12 (ID c)\<rparr>]) ls)"

definition parsed_images :: "string list \<Rightarrow> Image list" where
  "parsed_images ls =
     concat (map (\<lambda>l. case unmarshal_Image l of
                          None \<Rightarrow> []
                        | Some i \<Rightarrow>
                            [i\<lparr>img_ShortId := take 12 (TrimPrefix (img_ID i) ''sha256:'')\<rparr>]) ls)"

definition parsed_volumes :: "string list \<Rightarrow> Volume list" where
  "parsed_volumes ls =
     concat (map (\<lambda>l. case unmarshal_Volume l of None \<Rightarrow> [] | Some v \<Rightarrow> [v]) ls)"

text \<open>A world whose override variable names the classic CLI and in which every listing
  command prints \<open>out\<close>.\<close>

definition listing_world :: "string \<Rightarrow> world" where
  "listing_world out =
     \<lparr>goos = ''linux'',
      getenv = (\<lambda>k. if k = ''DOCKER_COM_DOCKER_CLI'' then ''/usr/local/bin/com.docker.cli''
                     else []),
      os_executable = None, eval_symlinks = (\<lambda>p. None), beside = (\<lambda>p n. []),
      stat_ok = (\<lambda>p. False), look_path = (\<lambda>n. Inl []),
      cmd_output = (\<lambda>p a. Some out)\<rparr>"

text \<open>A world with the override variable set to \<open>override\<close>, the current executable at
  \<^verbatim>\<open>/opt/docker/docker\<close>, a file beside it or not, a given answer of the search path,
  and listing commands that fail.\<close>

definition resolving_world :: "string \<Rightarrow> bool \<Rightarrow> string + string \<Rightarrow> world" where
  "resolving_world override sibling_present lookup =
     \<lparr>goos = ''linux'',
      getenv = (\<lambda>k. if k = ''DOCKER_COM_DOCKER_CLI'' then override
                     else if k = ''PATH'' then ''/usr/bin:/bin'' else []),
      os_executable = Some ''/opt/docker/docker'',
      eval_symlinks = (\<lambda>p. Some p),
      beside = (\<lambda>p n. ''/opt/docker/'' @ n),
      stat_ok = (\<lambda>p. sibling_present),
      look_path = (\<lambda>n. lookup),
      cmd_output = (\<lambda>p a. None)\<rparr>"

text \<open>A world like the one before in which the three listing commands print, or fail,
  each on its own: \<open>None\<close> for a command that fails.\<close>

definition listings_world :: "string option \<Rightarrow> string option \<Rightarrow> string option \<Rightarrow> world" where
  "listings_world ps_out image_ls_out volume_ls_out =
     (listing_world [])
       \<lparr>cmd_output := (\<lambda>p a. if a = ps_args then ps_out
                              else if a = image_ls_args then image_ls_out
                              else if a = volume_ls_args then volume_ls_out
                              else None)\<rparr>"

definition long_listing :: string where
  "long_listing =
     ''{\"ID\":\"0123456789abcdef\"}\<newline>NOT-JSON\<newline>{\"ID\":\"fedcba9876543210\"}\<newline>''"

text \<open>Lines on which the decoder returns an error, whatever the struct: text that is
  no JSON, a value that is neither an object nor \<^verbatim>\<open>null\<close>, an object cut short, a
  number or a truth value where a field holds a string, text behind the object.\<close>

definition refused_lines :: "string list" where
  "refused_lines =
     [''NOT-JSON'', ''not-json'', ''123'', ''time=1'', ''failed'', ''[x'', ''\"abc\"'',
      ''[1, 2]'', ''{\"ID\":'', ''{\"ID\":12, \"Name\":true}'',
      ''{\"ID\":\"0123456789abcdef\", \"Name\":\"data\"} trailing'']"

definition broken_listing :: string where
  "broken_listing = ''NOT-JSON\<newline>123\<newline>{\"ID\":\<newline>''"

text \<open>Lines the decoder accepts and that leave the identifier empty or short.\<close>

definition accepted_short_lines :: "string list" where
  "accepted_short_lines =
     [''null'', ''{}'', ''{\"ID\":null}'', ''{\"ID\":\"abc\", \"Size\":12}'',
      ''{\"Labels\":{\"a\":[1, 2]}, \"id\":\"sha256:abc\"}'']"

definition short_ps_listing :: string where
  "short_ps_listing = ''{\"ID\":\"abc\", \"Names\":\"web\"}\<newline>123\<newline>''"

definition short_image_listing :: string where
  "short_image_listing =
     ''NOT-JSON\<newline>{\"ID\":\"sha256:abcdef\", \"Tag\":\"v1\", \"Respository\":\"myapp\"}\<newline>''"

subsection \<open>\<^verbatim>\<open>enhance\<close>: the terminal hyperlink around a piece of text\<close>

definition OSC :: string where
  "OSC = [CHR 0x1B, CHR '']'']"

definition BEL :: string where
  "BEL = [CHR 0x07]"

definition SEP :: string where
  "SEP = '';''"

definition enhance :: "string \<Rightarrow> string \<Rightarrow> string \<Rightarrow> string" where
  "enhance prefix str ident =
     (let deeplink = ''docker-desktop://dashboard/'' @ prefix @ ''?id='' @ ident;
          enhanced = [OSC, ''8'', SEP, SEP, deeplink, BEL, str, OSC, ''8'', SEP, SEP, BEL]
      in concat enhanced)"

text \<open>
  The escape envelope of the terminal hyperlink convention (OSC 8): the opening sequence
  carries the URI, the closing sequence carries an empty one, and the text stands between
  them unchanged.
\<close>

definition hyperlink :: "string \<Rightarrow> string \<Rightarrow> string" where
  "hyperlink uri txt =
     [CHR 0x1B, CHR '']'', CHR ''8'', CHR '';'', CHR '';''] @ uri @ [CHR 0x07] @ txt
       @ [CHR 0x1B, CHR '']'', CHR ''8'', CHR '';'', CHR '';'', CHR 0x07]"

subsection \<open>\<^verbatim>\<open>RunDocker\<close>: the goroutine that relays signals\<close>

text \<open>
  The relay is the loop \<^verbatim>\<open>for { select { case sig := <-signals: ... case <-childExit:
  return } }\<close>. It is modelled as a function of what reaches it, in the order in which
  it reaches it: a signal taken from the channel \<^verbatim>\<open>signals\<close>, the completion
  notification taken from \<^verbatim>\<open>childExit\<close>, and the moment from which \<^verbatim>\<open>cmd.Process\<close>
  is no longer \<^verbatim>\<open>nil\<close> (the child with that process identifier has been created). The
  result lists the calls \<^verbatim>\<open>cmd.Process.Signal(sig)\<close> the loop makes: the process and the
  signal of each. A signal is its number. \<^verbatim>\<open>isRuntimeSig\<close> is defined per platform in
  files of the package that are not at hand; it is the parameter \<open>isRuntimeSig\<close>.
\<close>

datatype event = Process_created nat | Signal_received nat | Completion

fun relay :: "(nat \<Rightarrow> bool) \<Rightarrow> nat option \<Rightarrow> event list \<Rightarrow> (nat \<times> nat) list" where
  "relay isRuntimeSig process [] = []"
| "relay isRuntimeSig process (Process_created pid # es) = relay isRuntimeSig (Some pid) es"
| "relay isRuntimeSig process (Completion # es) = []"
| "relay isRuntimeSig process (Signal_received sig # es) =
     (case process of
        None \<Rightarrow> relay isRuntimeSig process es
      | Some pid \<Rightarrow>
          if isRuntimeSig sig then relay isRuntimeSig process es
          else (pid, sig) # relay isRuntimeSig process es)"

subsection \<open>\<^verbatim>\<open>regexp.MustCompile(p).ReplaceAllString(src, repl)\<close>\<close>

text \<open>
  The regular expressions the code builds are \<^verbatim>\<open>"(" + x + ")"\<close> and
  \<^verbatim>\<open>"(" + x + "[a-z0-9]*" + ")"\<close>, where \<open>x\<close> is a field of a record and is not
  quoted. Go's \<^verbatim>\<open>regexp\<close> is modelled on the following fragment of its syntax: one
  capturing group around a sequence of items, each item a plain byte, the dot, or a
  bracket of letters, digits and ranges of them, optionally followed by one star. A
  pattern outside this fragment (one Go refuses, on which \<^verbatim>\<open>MustCompile\<close> panics, as
  well as one Go accepts with operators not modelled here) compiles to \<open>None\<close>.
\<close>

paragraph \<open>Patterns\<close>

datatype atom = Lit char | AnyNotNL | Class "(char \<times> char) list"

type_synonym item = "atom \<times> bool"

text \<open>A byte that stands for itself in a pattern: ASCII, and none of
  \<^verbatim>\<open>\ . + * ? ( ) | [ ] { } ^ $\<close>.\<close>

definition is_plain :: "char \<Rightarrow> bool" where
  "is_plain c = (byte c < 0x80 \<and> c \<noteq> CHR 0x5C \<and> c \<notin> set ''.+*?()|[]{}^$'')"

definition alnum :: "char \<Rightarrow> bool" where
  "alnum c = ((0x30 \<le> byte c \<and> byte c \<le> 0x39) \<or> (0x41 \<le> byte c \<and> byte c \<le> 0x5A)
              \<or> (0x61 \<le> byte c \<and> byte c \<le> 0x7A))"

text \<open>The inside of a bracket, read from behind \<^verbatim>\<open>[\<close> up to \<^verbatim>\<open>]\<close>: single letters
  and digits, and ranges \<^verbatim>\<open>lo-hi\<close> of them with \<open>lo \<le> hi\<close>.\<close>

fun parse_class :: "string \<Rightarrow> ((char \<times> char) list \<times> string) option" where
  "parse_class (lo # d # hi # s) =
     (if lo = CHR '']'' then Some ([], d # hi # s)
      else if \<not> alnum lo then None
      else if d = CHR ''-'' then
        (if alnum hi \<and> byte lo \<le> byte hi then
           (case parse_class s of None \<Rightarrow> None | Some (rs, r) \<Rightarrow> Some ((lo, hi) # rs, r))
         else None)
      else (case parse_class (d # hi # s) of
              None \<Rightarrow> None
            | Some (rs, r) \<Rightarrow> Some ((lo, lo) # rs, r)))"
| "parse_class [lo, d] =
     (if lo = CHR '']'' then Some ([], [d])
      else if alnum lo \<and> d = CHR '']'' then Some ([(lo, lo)], [])
      else None)"
| "parse_class [lo] = (if lo = CHR '']'' then Some ([], []) else None)"
| "parse_class [] = None"

definition parse_atom :: "string \<Rightarrow> (atom \<times> string) option" where
  "parse_atom s =
     (case s of
        [] \<Rightarrow> None
      | c # r \<Rightarrow>
          if c = CHR ''.'' then Some (AnyNotNL, r)
          else if c = CHR ''['' then
            (case parse_class r of
               None \<Rightarrow> None
             | Some (rs, r') \<Rightarrow> if rs = [] then None else Some (Class rs, r'))
          else if is_plain c then Some (Lit c, r)
          else None)"

lemma parse_class_shorter: "parse_class s = Some (rs, r) \<Longrightarrow> length r < length s"
  by (induction s arbitrary: rs r rule: parse_class.induct)
     (fastforce split: if_splits option.splits)+

lemma parse_atom_shorter: "parse_atom s = Some (a, r) \<Longrightarrow> length r < length s"
  by (auto simp: parse_atom_def split: list.splits if_splits option.splits
           dest: parse_class_shorter)

function parse_items :: "string \<Rightarrow> item list option" where
  "parse_items s =
     (if s = [] then Some []
      else
        (case parse_atom s of
           None \<Rightarrow> None
         | Some (a, r) \<Rightarrow>
             (case r of
                [] \<Rightarrow> Some [(a, False)]
              | q # r' \<Rightarrow>
                  if q = CHR ''*'' then
                    (case parse_items r' of None \<Rightarrow> None | Some is \<Rightarrow> Some ((a, True) # is))
                  else
                    (case parse_items r of None \<Rightarrow> None | Some is \<Rightarrow> Some ((a, False) # is)))))"
  by pat_completeness auto
termination
  by (relation "measure length") (auto dest: parse_atom_shorter)

text \<open>\<^verbatim>\<open>regexp.MustCompile\<close> on a pattern of the fragment: the items inside the one
  group.\<close>

definition compile :: "string \<Rightarrow> item list option" where
  "compile p =
     (case p of
        [] \<Rightarrow> None
      | c # r \<Rightarrow>
          if c = CHR ''('' \<and> r \<noteq> [] \<and> last r = CHR '')'' then parse_items (butlast r)
          else None)"

paragraph \<open>Matching\<close>

definition in_ranges :: "char \<Rightarrow> (char \<times> char) list \<Rightarrow> bool" where
  "in_ranges c rs = list_ex (\<lambda>(lo, hi). byte lo \<le> byte c \<and> byte c \<le> byte hi) rs"

text \<open>One atom against the beginning of the text: the number of bytes it takes.\<close>

fun step :: "atom \<Rightarrow> string \<Rightarrow> nat option" where
  "step a [] = None"
| "step (Lit x) (c # s) = (if c = x then Some 1 else None)"
| "step AnyNotNL (c # s) = (if c = CHR 0x0A then None else Some (rune_width (c # s)))"
| "step (Class rs) (c # s) = (if in_ranges c rs then Some 1 else None)"

lemma step_bounds: "step a s = Some w \<Longrightarrow> 0 < w \<and> w \<le> length s"
  using rune_width_bounds [of s]
  by (cases a; cases s) (auto split: if_splits)

text \<open>
  The items against the beginning of the text, in the order of preference of Go's
  leftmost-first matching: a starred item takes one more repetition when the rest can
  still match after it, and gives it up otherwise. The result is the length of the match.
\<close>

function match_here :: "item list \<Rightarrow> string \<Rightarrow> nat option" where
  "match_here [] s = Some 0"
| "match_here ((a, False) # is) s =
     (case step a s of
        None \<Rightarrow> None
      | Some w \<Rightarrow> (case match_here is (drop w s) of None \<Rightarrow> None | Some n \<Rightarrow> Some (w + n)))"
| "match_here ((a, True) # is) s =
     (case step a s of
        None \<Rightarrow> match_here is s
      | Some w \<Rightarrow>
          (case match_here ((a, True) # is) (drop w s) of
             None \<Rightarrow> match_here is s
           | Some n \<Rightarrow> Some (w + n)))"
  by pat_completeness auto
termination
  by (relation "measures [\<lambda>(is, s). length s, \<lambda>(is, s). length is]")
     (auto dest: step_bounds)

text \<open>
  The leftmost match in \<open>s\<close>: the offset at which it begins and its length. The search
  tries the beginning of the text and then moves on by one rune at a time, up to and
  including the end of the text.
\<close>

function find_match :: "item list \<Rightarrow> string \<Rightarrow> (nat \<times> nat) option" where
  "find_match re s =
     (case match_here re s of
        Some n \<Rightarrow> Some (0, n)
      | None \<Rightarrow>
          if s = [] then None
          else (case find_match re (drop (rune_width s) s) of
                  None \<Rightarrow> None
                | Some (i, n) \<Rightarrow> Some (rune_width s + i, n)))"
  by pat_completeness auto
termination
  using rune_width_bounds
  by (relation "measure (\<lambda>(re, s). length s)") auto

paragraph \<open>The replacement template\<close>

text \<open>
  \<^verbatim>\<open>Regexp.expand\<close>: in the template, \<^verbatim>\<open>$$\<close> stands for a dollar sign, and \<^verbatim>\<open>$name\<close>
  or \<^verbatim>\<open>${name}\<close> for the text of the group of that number or name, where the name is the
  longest run of letters, digits and underscores. The patterns of the fragment have the
  groups 0 and 1, which both hold the whole match, and no named group; any other name
  stands for the empty text. A dollar sign followed by no name stays as it is. Letters
  are decided by Unicode; a name that would go on with a byte outside ASCII is not
  modelled.
\<close>

definition name_byte :: "char \<Rightarrow> bool" where
  "name_byte c = (alnum c \<or> c = CHR ''_'')"

datatype extracted = Malformed | Beyond | Named string string

definition extract_name :: "string \<Rightarrow> extracted" where
  "extract_name str =
     (if str = [] then Malformed
      else
        (let brace = (hd str = CHR ''{'');
             str1 = (if brace then tl str else str);
             name = takeWhile name_byte str1;
             rest = dropWhile name_byte str1
         in if rest \<noteq> [] \<and> 0x80 \<le> byte (hd rest) then Beyond
            else if name = [] then Malformed
            else if brace then
              (if rest = [] \<or> hd rest \<noteq> CHR ''}'' then Malformed else Named name (tl rest))
            else Named name rest))"

definition group_text :: "string \<Rightarrow> string \<Rightarrow> string" where
  "group_text name m = (if name = ''0'' \<or> name = ''1'' then m else [])"

lemma extract_name_shorter:
  assumes "extract_name str = Named name rest"
  shows "length rest \<le> length str"
proof -
  define str1 where "str1 = (if hd str = CHR ''{'' then tl str else str)"
  have "rest = dropWhile name_byte str1 \<or> rest = tl (dropWhile name_byte str1)"
    using assms unfolding extract_name_def Let_def str1_def
    by (simp split: if_splits)
  then have "length rest \<le> length (dropWhile name_byte str1)"
    by auto
  also have "\<dots> \<le> length str1"
    by (rule length_dropWhile_le)
  also have "\<dots> \<le> length str"
    by (simp add: str1_def)
  finally show ?thesis .
qed

function expand :: "string \<Rightarrow> string \<Rightarrow> string option" where
  "expand template m =
     (case dropWhile (\<lambda>c. c \<noteq> CHR ''$'') template of
        [] \<Rightarrow> Some template
      | d # after \<Rightarrow>
          (let before = takeWhile (\<lambda>c. c \<noteq> CHR ''$'') template in
           if after \<noteq> [] \<and> hd after = CHR ''$'' then
             (case expand (tl after) m of None \<Rightarrow> None | Some r \<Rightarrow> Some (before @ ''$'' @ r))
           else
             (case extract_name after of
                Malformed \<Rightarrow>
                  (case expand after m of None \<Rightarrow> None | Some r \<Rightarrow> Some (before @ ''$'' @ r))
              | Beyond \<Rightarrow> None
              | Named name rest \<Rightarrow>
                  (case expand rest m of
                     None \<Rightarrow> None
                   | Some r \<Rightarrow> Some (before @ group_text name m @ r)))))"
  by pat_completeness auto
termination
proof (relation "measure (\<lambda>(t, m). length t)", goal_cases)
  case 1
  show ?case by simp
next
  case (2 template m d after before)
  have "length (dropWhile (\<lambda>c. c \<noteq> CHR ''$'') template) \<le> length template"
    by (rule length_dropWhile_le)
  with 2 show ?case by (cases after) auto
next
  case (3 template m d after before)
  have "length (dropWhile (\<lambda>c. c \<noteq> CHR ''$'') template) \<le> length template"
    by (rule length_dropWhile_le)
  with 3 show ?case by auto
next
  case (4 template m d after before name rest)
  have "length (dropWhile (\<lambda>c. c \<noteq> CHR ''$'') template) \<le> length template"
    by (rule length_dropWhile_le)
  with 4 extract_name_shorter [of after name rest] show ?case by auto
qed

paragraph \<open>Replacing all matches\<close>

text \<open>
  \<^verbatim>\<open>Regexp.replaceAll\<close>: \<open>lastMatchEnd\<close> is the end of the most recent match,
  \<open>searchPos\<close> the position where the next match is looked for, \<open>buf\<close> what has been
  written, and \<open>a0\<close>, \<open>a1\<close> the bounds of the match found.
\<close>

text \<open>What one match appends: the text between the last match and this one, then the
  expansion of the template, which is left out for an empty match right behind another
  match.\<close>

definition append_match :: "string \<Rightarrow> string \<Rightarrow> nat \<Rightarrow> nat \<Rightarrow> nat \<Rightarrow> string \<Rightarrow> string option" where
  "append_match repl src lastMatchEnd a0 a1 buf =
     (let buf1 = buf @ take (a0 - lastMatchEnd) (drop lastMatchEnd src)
      in if lastMatchEnd < a1 \<or> a0 = 0 then
           (case expand repl (take (a1 - a0) (drop a0 src)) of
              None \<Rightarrow> None
            | Some expansion \<Rightarrow> Some (buf1 @ expansion))
         else Some buf1)"

text \<open>Where the search goes on: behind the match, and at least one rune further.\<close>

definition next_search :: "string \<Rightarrow> nat \<Rightarrow> nat \<Rightarrow> nat" where
  "next_search src searchPos a1 =
     (let width = rune_width (drop searchPos src)
      in if a1 < searchPos + width then searchPos + width
         else if a1 < searchPos + 1 then searchPos + 1
         else a1)"

lemma next_search_advances: "searchPos \<le> a1 \<Longrightarrow> searchPos < next_search src searchPos a1"
  by (simp add: next_search_def Let_def)

function replaceAll :: "item list \<Rightarrow> string \<Rightarrow> string \<Rightarrow> nat \<Rightarrow> nat \<Rightarrow> string \<Rightarrow> string option" where
  "replaceAll re src repl lastMatchEnd searchPos buf =
     (if length src < searchPos then Some (buf @ drop lastMatchEnd src)
      else
        (case find_match re (drop searchPos src) of
           None \<Rightarrow> Some (buf @ drop lastMatchEnd src)
         | Some (i, n) \<Rightarrow>
             (case append_match repl src lastMatchEnd (searchPos + i) (searchPos + i + n) buf of
                None \<Rightarrow> None
              | Some buf' \<Rightarrow>
                  replaceAll re src repl (searchPos + i + n)
                    (next_search src searchPos (searchPos + i + n)) buf')))"
  by pat_completeness auto
termination
proof (relation "measure (\<lambda>(re, src, repl, lastMatchEnd, searchPos, buf).
                           Suc (length src) - searchPos)", goal_cases)
  case 1
  show ?case by simp
next
  case (2 re src repl lastMatchEnd searchPos buf m i n buf')
  have "searchPos < next_search src searchPos (searchPos + i + n)"
    by (rule next_search_advances) simp
  with 2 show ?case by simp
qed

text \<open>The call of the source: the pattern is compiled, and every match in \<open>src\<close> is
  replaced by the expansion of \<open>repl\<close>.\<close>

definition ReplaceAllString :: "string \<Rightarrow> string \<Rightarrow> string \<Rightarrow> stop + string" where
  "ReplaceAllString pattern src repl =
     (case compile pattern of
        None \<Rightarrow> Inl OutsideModel
      | Some re \<Rightarrow>
          (case replaceAll re src repl 0 0 [] of
             None \<Rightarrow> Inl OutsideModel
           | Some r \<Rightarrow> Inr r))"

text \<open>The recursive equations are applied one step at a time in what follows.\<close>

declare parse_items.simps [simp del] match_here.simps [simp del] find_match.simps [simp del]
  expand.simps [simp del] replaceAll.simps [simp del]

subsection \<open>\<^verbatim>\<open>RunDocker\<close>: what the scanning loop does with one line\<close>

text \<open>The two replacements made for a container: its short identifier with the
  letters and digits that follow it, then its name, on the line the first one gave.\<close>

definition rewrite_container :: "Container \<Rightarrow> string \<Rightarrow> stop + string" where
  "rewrite_container c line =
     (case ReplaceAllString (''('' @ ShortId c @ ''[a-z0-9]*'' @ '')'') line
             (enhance ''containers'' ''$1'' (ID c)) of
        Inl e \<Rightarrow> Inl e
      | Inr line1 \<Rightarrow>
          ReplaceAllString (''('' @ Names c @ '')'') line1
            (enhance ''containers'' ''$1'' (ID c)))"

definition rewrite_volume :: "Volume \<Rightarrow> string \<Rightarrow> stop + string" where
  "rewrite_volume v line =
     ReplaceAllString (''('' @ Name v @ '')'') line (enhance ''volumes'' ''$1'' (Name v))"

definition rewrite_image :: "Image \<Rightarrow> string \<Rightarrow> stop + string" where
  "rewrite_image img line =
     (if Contains line (Respository img) then
        (if Contains line (Tag img) then
           ReplaceAllString (''('' @ Respository img @ '')'') line
             (enhance ''images'' ''$1'' (img_ID img @ ''-'' @ Tag img))
         else
           ReplaceAllString (''('' @ Respository img @ '')'') line
             (enhance ''images'' ''$1'' (img_ID img @ ''-latest'')))
      else Inr line)"

text \<open>A \<^verbatim>\<open>for _, x := range xs\<close> loop that rewrites the line once for each record.\<close>

fun rewrite_each :: "('a \<Rightarrow> string \<Rightarrow> stop + string) \<Rightarrow> 'a list \<Rightarrow> string \<Rightarrow> stop + string" where
  "rewrite_each f [] line = Inr line"
| "rewrite_each f (x # xs) line =
     (case f x line of Inl e \<Rightarrow> Inl e | Inr line' \<Rightarrow> rewrite_each f xs line')"

text \<open>The line written to standard output for the line read, with the catalog as it
  stands: containers, then volumes, then images.\<close>

definition rewrite_line ::
  "Container list \<Rightarrow> Volume list \<Rightarrow> Image list \<Rightarrow> string \<Rightarrow> stop + string" where
  "rewrite_line cons vols imgs line =
     (case rewrite_each rewrite_container cons line of
        Inl e \<Rightarrow> Inl e
      | Inr line1 \<Rightarrow>
          (case rewrite_each rewrite_volume vols line1 of
             Inl e \<Rightarrow> Inl e
           | Inr line2 \<Rightarrow> rewrite_each rewrite_image imgs line2))"

text \<open>
  One turn of the loop \<^verbatim>\<open>for scanner.Scan()\<close>: when the first argument is \<^verbatim>\<open>run\<close> the
  three collections are loaded again (\<^verbatim>\<open>args[0]\<close> panics when there is no argument);
  then the line is rewritten. The result is the collections as they stand afterwards and
  the line given to \<^verbatim>\<open>fmt.Fprintln(os.Stdout, line)\<close>.
\<close>

record catalog =
  containers :: "Container list"
  volumes :: "Volume list"
  images :: "Image list"

text \<open>The three collections, loaded one after the other as at the beginning of
  \<^verbatim>\<open>RunDocker\<close> and in the loop.\<close>

definition load_catalog :: "world \<Rightarrow> stop + catalog" where
  "load_catalog w =
     (case getContainers w of
        Inl e \<Rightarrow> Inl e
      | Inr cs \<Rightarrow>
          (case getVolumes w of
             Inl e \<Rightarrow> Inl e
           | Inr vs \<Rightarrow>
               (case getImages w of
                  Inl e \<Rightarrow> Inl e
                | Inr is \<Rightarrow> Inr \<lparr>containers = cs, volumes = vs, images = is\<rparr>)))"

definition refresh :: "world \<Rightarrow> string list \<Rightarrow> catalog \<Rightarrow> stop + catalog" where
  "refresh w args cat =
     (case args of
        [] \<Rightarrow> Inl PanicIndexRange
      | first # _ \<Rightarrow> if first = ''run'' then load_catalog w else Inr cat)"

definition scan_line :: "world \<Rightarrow> string list \<Rightarrow> catalog \<Rightarrow> string \<Rightarrow> stop + catalog \<times> string" where
  "scan_line w args cat line =
     (case refresh w args cat of
        Inl e \<Rightarrow> Inl e
      | Inr cat' \<Rightarrow>
          (case rewrite_line (containers cat') (volumes cat') (images cat') line of
             Inl e \<Rightarrow> Inl e
           | Inr line' \<Rightarrow> Inr (cat', line')))"

subsection \<open>Vocabulary for the properties of the rewriting\<close>

text \<open>A string every byte of which stands for itself in a pattern, and the items it
  compiles to.\<close>

definition plain :: "string \<Rightarrow> bool" where
  "plain x = list_all is_plain x"

definition lits :: "string \<Rightarrow> item list" where
  "lits x = map (\<lambda>c. (Lit c, False)) x"

text \<open>The item \<^verbatim>\<open>[a-z0-9]*\<close>, and the bytes its bracket takes.\<close>

definition id_class :: item where
  "id_class = (Class [(CHR ''a'', CHR ''z''), (CHR ''0'', CHR ''9'')], True)"


text \<open>A container whose short identifier and name are plain, and whether a line
  contains one or the other.\<close>

definition plain_container :: "Container \<Rightarrow> bool" where
  "plain_container c = (plain (ShortId c) \<and> plain (Names c))"

definition names_container :: "string \<Rightarrow> Container \<Rightarrow> bool" where
  "names_container line c = (Contains line (ShortId c) \<or> Contains line (Names c))"

text \<open>Example records.\<close>

definition web :: Container where
  "web =
     \<lparr>ShortId = ''0123456789ab'',
      ID = ''0123456789abcdef0123456789abcdef0123456789abcdef0123456789abcdef'',
      Names = ''web''\<rparr>"


definition data_volume :: Volume where
  "data_volume = \<lparr>Name = ''data''\<rparr>"

definition dotted_volume :: Volume where
  "dotted_volume = \<lparr>Name = ''a.c''\<rparr>"

definition nginx :: Image where
  "nginx =
     \<lparr>img_ShortId = ''4f5e6a7b8c9d'',
      img_ID = ''sha256:4f5e6a7b8c9d0e1f4f5e6a7b8c9d0e1f4f5e6a7b8c9d0e1f4f5e6a7b8c9d0e1f'',
      Tag = ''1.25'', Respository = ''nginx''\<rparr>"


definition dotted_image :: Image where
  "dotted_image =
     \<lparr>img_ShortId = ''4f5e6a7b8c9d'',
      img_ID = ''sha256:4f5e6a7b8c9d0e1f4f5e6a7b8c9d0e1f4f5e6a7b8c9d0e1f4f5e6a7b8c9d0e1f'',
      Tag = ''v1'', Respository = ''a.a''\<rparr>"

text \<open>
  \<open>replace_matches re f s\<close> is \<open>s\<close> with every match of \<open>re\<close>, found from left to right and
  each behind the one before, replaced by \<open>f\<close> of the text matched. It is used for patterns
  whose matches are not empty (an empty match ends it).
\<close>

lemma match_here_bound: "match_here re s = Some n \<Longrightarrow> n \<le> length s"
proof (induction re s arbitrary: n rule: match_here.induct)
  case (1 s)
  then show ?case by (simp add: match_here.simps)
next
  case (2 a "is" s)
  from "2.prems" obtain w k where w: "step a s = Some w"
    and k: "match_here is (drop w s) = Some k" and n: "n = w + k"
    by (auto simp: match_here.simps split: option.splits)
  from "2.IH" [OF w k] step_bounds [OF w] n show ?case by auto
next
  case (3 a "is" s)
  show ?case
  proof (cases "step a s")
    case None
    with "3.prems" have "match_here is s = Some n" by (simp add: match_here.simps)
    with "3.IH"(1) [OF None] show ?thesis by simp
  next
    case (Some w)
    note w = Some
    show ?thesis
    proof (cases "match_here ((a, True) # is) (drop w s)")
      case None
      with w "3.prems" have "match_here is s = Some n" by (simp add: match_here.simps)
      with "3.IH"(3) [OF w None] show ?thesis by simp
    next
      case (Some k)
      with w "3.prems" have n: "n = w + k" by (simp add: match_here.simps)
      from "3.IH"(2) [OF w Some] step_bounds [OF w] n show ?thesis by auto
    qed
  qed
qed

lemma find_match_Nil: "find_match re [] = Some (i, n) \<Longrightarrow> n = 0"
  by (subst (asm) find_match.simps) (auto split: option.splits dest: match_here_bound)

lemma find_match_shortens:
  assumes "find_match re s = Some (i, n)" and "n \<noteq> 0"
  shows "length (drop (i + n) s) < length s"
proof -
  have "s \<noteq> []" using assms find_match_Nil [of re i n] by auto
  with assms(2) show ?thesis by simp
qed

function replace_matches :: "item list \<Rightarrow> (string \<Rightarrow> string) \<Rightarrow> string \<Rightarrow> string" where
  "replace_matches re f s =
     (case find_match re s of
        None \<Rightarrow> s
      | Some (i, n) \<Rightarrow>
          if n = 0 then s
          else take i s @ f (take n (drop i s)) @ replace_matches re f (drop (i + n) s))"
  by pat_completeness auto
termination
  by (relation "measure (\<lambda>(re, f, s). length s)") (auto dest: find_match_shortens)

declare replace_matches.simps [simp del]

text \<open>The URI of a decoration, and the properties of a later pattern \<open>x\<close> with respect to
  a decoration \<open>D\<close> in the line: \<open>x\<close> is plain, has neither the escape byte nor the bell
  byte, and does not occur in \<open>D\<close>.\<close>

definition deeplink :: "string \<Rightarrow> string \<Rightarrow> string" where
  "deeplink kind ident = ''docker-desktop://dashboard/'' @ kind @ ''?id='' @ ident"








subsection \<open>\<^verbatim>\<open>RunDocker\<close>: the child, the pipe, the scanning goroutine and the main flow\<close>

text \<open>
  From \<^verbatim>\<open>os.Pipe()\<close> on, three activities run side by side: the child process, which
  writes its lines into the pipe and exits; the goroutine that scans the pipe line by
  line, rewrites each line and writes it to standard output, and sends on \<^verbatim>\<open>done\<close>
  when the scanner has nothing more to give; and the main flow, which waits in
  \<^verbatim>\<open>cmd.Run()\<close>, returns the error if there is one, and otherwise closes its write end
  of the pipe, receives from \<^verbatim>\<open>done\<close> and returns \<^verbatim>\<open>nil\<close>. They are modelled as a
  transition relation on the state they share; every interleaving of their steps is a
  run. The pipe holds whole lines (its capacity is not modelled).
\<close>

text \<open>What is fixed for one call: the world, the arguments, whether the child can be
  started, the lines the child writes, each ended by a newline, the status it exits
  with, and the catalog loaded before the child is started (a result of
  \<open>load_catalog\<close>).\<close>

record invocation =
  the_world :: world
  the_args :: "string list"
  child_starts :: bool
  child_lines :: "string list"
  child_status :: nat
  loaded :: catalog

datatype child_state = Child_not_started | Child_running "string list" | Child_exited

datatype scanner_state = Scanning | Sending_done | Scanner_finished | Scanner_panicked stop

datatype run_error = Start_error | Exit_error nat

datatype main_state = In_Run | Before_Close | Receiving_done | Returned "run_error option"

record run_state =
  child :: child_state
  pipe :: "string list"
  write_end_open :: bool
  catalog_now :: catalog
  scanner :: scanner_state
  main :: main_state
  written :: "string list"

definition initial :: "invocation \<Rightarrow> run_state" where
  "initial call =
     \<lparr>child = Child_not_started, pipe = [], write_end_open = True, catalog_now = loaded call,
      scanner = Scanning, main = In_Run, written = []\<rparr>"

text \<open>\<^verbatim>\<open>bufio.MaxScanTokenSize\<close>: \<^verbatim>\<open>Scan\<close> gives up on a line that does not fit, with its
  newline, into a buffer of this size.\<close>

definition MaxScanTokenSize :: nat where
  "MaxScanTokenSize = 64 * 1024"

text \<open>\<^verbatim>\<open>bufio.ScanLines\<close> drops one carriage return at the end of a line.\<close>

definition dropCR :: "string \<Rightarrow> string" where
  "dropCR l = (if l \<noteq> [] \<and> last l = CHR 0x0D then butlast l else l)"

text \<open>A panic in a goroutine ends the whole process: nothing moves any more.\<close>

definition alive :: "run_state \<Rightarrow> bool" where
  "alive s = (case scanner s of Scanner_panicked e \<Rightarrow> False | _ \<Rightarrow> True)"

inductive moves :: "invocation \<Rightarrow> run_state \<Rightarrow> run_state \<Rightarrow> bool" for call where
  start_fails:
    "alive s \<Longrightarrow> main s = In_Run \<Longrightarrow> child s = Child_not_started \<Longrightarrow> \<not> child_starts call \<Longrightarrow>
     moves call s (s\<lparr>main := Returned (Some Start_error)\<rparr>)"
| start:
    "alive s \<Longrightarrow> main s = In_Run \<Longrightarrow> child s = Child_not_started \<Longrightarrow> child_starts call \<Longrightarrow>
     moves call s (s\<lparr>child := Child_running (child_lines call)\<rparr>)"
| child_writes:
    "alive s \<Longrightarrow> child s = Child_running (l # ls) \<Longrightarrow>
     moves call s (s\<lparr>child := Child_running ls, pipe := pipe s @ [l]\<rparr>)"
| child_exits:
    "alive s \<Longrightarrow> child s = Child_running [] \<Longrightarrow>
     moves call s (s\<lparr>child := Child_exited\<rparr>)"
| run_returns_nil:
    "alive s \<Longrightarrow> main s = In_Run \<Longrightarrow> child s = Child_exited \<Longrightarrow> child_status call = 0 \<Longrightarrow>
     moves call s (s\<lparr>main := Before_Close\<rparr>)"
| run_returns_error:
    "alive s \<Longrightarrow> main s = In_Run \<Longrightarrow> child s = Child_exited \<Longrightarrow> child_status call \<noteq> 0 \<Longrightarrow>
     moves call s (s\<lparr>main := Returned (Some (Exit_error (child_status call)))\<rparr>)"
| close_write_end:
    "alive s \<Longrightarrow> main s = Before_Close \<Longrightarrow>
     moves call s (s\<lparr>write_end_open := False, main := Receiving_done\<rparr>)"
| scan_writes:
    "alive s \<Longrightarrow> scanner s = Scanning \<Longrightarrow> pipe s = l # ls \<Longrightarrow> length l < MaxScanTokenSize \<Longrightarrow>
     scan_line (the_world call) (the_args call) (catalog_now s) (dropCR l) = Inr (cat', line') \<Longrightarrow>
     moves call s (s\<lparr>pipe := ls, catalog_now := cat', written := written s @ [line']\<rparr>)"
| scan_panics:
    "alive s \<Longrightarrow> scanner s = Scanning \<Longrightarrow> pipe s = l # ls \<Longrightarrow> length l < MaxScanTokenSize \<Longrightarrow>
     scan_line (the_world call) (the_args call) (catalog_now s) (dropCR l) = Inl e \<Longrightarrow>
     moves call s (s\<lparr>pipe := ls, scanner := Scanner_panicked e\<rparr>)"
| scan_too_long:
    "alive s \<Longrightarrow> scanner s = Scanning \<Longrightarrow> pipe s = l # ls \<Longrightarrow> MaxScanTokenSize \<le> length l \<Longrightarrow>
     moves call s (s\<lparr>scanner := Sending_done\<rparr>)"
| scan_end_of_stream:
    "alive s \<Longrightarrow> scanner s = Scanning \<Longrightarrow> pipe s = [] \<Longrightarrow> \<not> write_end_open s \<Longrightarrow>
     child s = Child_exited \<or> child s = Child_not_started \<Longrightarrow>
     moves call s (s\<lparr>scanner := Sending_done\<rparr>)"
| done_handed_over:
    "alive s \<Longrightarrow> scanner s = Sending_done \<Longrightarrow> main s = Receiving_done \<Longrightarrow>
     moves call s (s\<lparr>scanner := Scanner_finished, main := Returned None\<rparr>)"

code_pred moves .

text \<open>The states a call can be in.\<close>

inductive reachable :: "invocation \<Rightarrow> run_state \<Rightarrow> bool" for call where
  at_start: "reachable call (initial call)"
| after_step: "reachable call s \<Longrightarrow> moves call s s' \<Longrightarrow> reachable call s'"

code_pred reachable .

text \<open>What the scanning loop writes for a sequence of lines when it reads all of them,
  with the catalog as the loop leaves it.\<close>

fun scan_all :: "world \<Rightarrow> string list \<Rightarrow> catalog \<Rightarrow> string list \<Rightarrow> stop + catalog \<times> string list" where
  "scan_all w args cat [] = Inr (cat, [])"
| "scan_all w args cat (l # ls) =
     (case scan_line w args cat (dropCR l) of
        Inl e \<Rightarrow> Inl e
      | Inr (cat', line') \<Rightarrow>
          (case scan_all w args cat' ls of
             Inl e \<Rightarrow> Inl e
           | Inr (cat'', lines') \<Rightarrow> Inr (cat'', line' # lines')))"

text \<open>The lines the child has still to write.\<close>

definition to_write :: "invocation \<Rightarrow> run_state \<Rightarrow> string list" where
  "to_write call s =
     (case child s of
        Child_not_started \<Rightarrow> if child_starts call then child_lines call else []
      | Child_running ls \<Rightarrow> ls
      | Child_exited \<Rightarrow> [])"

text \<open>An example: no catalog, a child that writes one line and exits with status 1.\<close>

definition failing_child :: invocation where
  "failing_child =
     \<lparr>the_world = listing_world [], the_args = [''build'', ''.''], child_starts = True,
      child_lines = [''Step 1/2 : FROM scratch''], child_status = 1,
      loaded = \<lparr>containers = [], volumes = [], images = []\<rparr>\<rparr>"

definition succeeding_child :: invocation where
  "succeeding_child =
     \<lparr>the_world = listing_world [], the_args = [''version''], child_starts = True,
      child_lines = [''Docker version 20.10''], child_status = 0,
      loaded = \<lparr>containers = [], volumes = [], images = []\<rparr>\<rparr>"

text \<open>Further examples: a child that writes two lines and exits with status 2, a child
  that cannot be started, and two states of the examples above.\<close>

definition interrupted_child :: invocation where
  "interrupted_child =
     \<lparr>the_world = listing_world [], the_args = [''pull'', ''nginx''], child_starts = True,
      child_lines = [''Using default tag: latest'', ''Pulling from library/nginx''],
      child_status = 2,
      loaded = \<lparr>containers = [], volumes = [], images = []\<rparr>\<rparr>"

definition unstartable_child :: invocation where
  "unstartable_child =
     \<lparr>the_world = listing_world [], the_args = [''ps''], child_starts = False,
      child_lines = [], child_status = 0,
      loaded = \<lparr>containers = [], volumes = [], images = []\<rparr>\<rparr>"

definition failed_state :: run_state where
  "failed_state =
     \<lparr>child = Child_exited, pipe = [''Step 1/2 : FROM scratch''], write_end_open = True,
      catalog_now = \<lparr>containers = [], volumes = [], images = []\<rparr>, scanner = Scanning,
      main = Returned (Some (Exit_error 1)), written = []\<rparr>"

definition finished_state :: run_state where
  "finished_state =
     \<lparr>child = Child_exited, pipe = [], write_end_open = False,
      catalog_now = \<lparr>containers = [], volumes = [], images = []\<rparr>,
      scanner = Scanner_finished, main = Returned None,
      written = [''Docker version 20.10'']\<rparr>"

text \<open>Vocabulary for the invariants: the main flow has not closed its write end (it is
  still in \<^verbatim>\<open>cmd.Run()\<close>, or about to close, or has returned an error); the main flow
  has come out of \<^verbatim>\<open>cmd.Run()\<close> without error; the lines the child writes in all; and
  the account of the lines: those the scanner has consumed, those in the pipe and those
  still to be written make up the lines of the child, and what has been written is what
  the loop writes for the lines consumed.\<close>

definition main_before_close :: "main_state \<Rightarrow> bool" where
  "main_before_close m = (case m of In_Run \<Rightarrow> True | Before_Close \<Rightarrow> True
                          | Receiving_done \<Rightarrow> False | Returned r \<Rightarrow> r \<noteq> None)"

definition main_after_run :: "main_state \<Rightarrow> bool" where
  "main_after_run m = (m = Before_Close \<or> m = Receiving_done \<or> m = Returned None)"

definition total_lines :: "invocation \<Rightarrow> string list" where
  "total_lines call = (if child_starts call then child_lines call else [])"

definition accounted :: "invocation \<Rightarrow> run_state \<Rightarrow> string list \<Rightarrow> bool" where
  "accounted call s consumed =
     (total_lines call = consumed @ pipe s @ to_write call s
      \<and> (alive s \<longrightarrow>
           scan_all (the_world call) (the_args call) (loaded call) consumed
             = Inr (catalog_now s, written s)))"

section \<open>The catalog loader\<close>

subsection \<open>The loops over the lines\<close>

lemma containers_loop_collects:
  assumes "\<forall>l\<in>set ls. \<forall>c. unmarshal_Container l = Some c \<longrightarrow> 12 \<le> length (ID c)"
  shows "containers_loop ls cs = Inr (cs @ parsed_containers ls)"
  using assms
proof (induction ls arbitrary: cs)
  case Nil
  show ?case by (simp add: parsed_containers_def)
next
  case (Cons l ls)
  show ?case
  proof (cases "unmarshal_Container l")
    case None
    with Cons show ?thesis by (simp add: parsed_containers_def)
  next
    case (Some c)
    with Cons.prems have "12 \<le> length (ID c)" by simp
    with Some Cons show ?thesis by (simp add: parsed_containers_def)
  qed
qed

lemma images_loop_collects:
  assumes "\<forall>l\<in>set ls. \<forall>i. unmarshal_Image l = Some i
             \<longrightarrow> 12 \<le> length (TrimPrefix (img_ID i) ''sha256:'')"
  shows "images_loop ls imgs = Inr (imgs @ parsed_images ls)"
  using assms
proof (induction ls arbitrary: imgs)
  case Nil
  show ?case by (simp add: parsed_images_def)
next
  case (Cons l ls)
  show ?case
  proof (cases "unmarshal_Image l")
    case None
    with Cons show ?thesis by (simp add: parsed_images_def)
  next
    case (Some i)
    with Cons.prems have "12 \<le> length (TrimPrefix (img_ID i) ''sha256:'')" by simp
    with Some Cons show ?thesis by (simp add: parsed_images_def)
  qed
qed

lemma volumes_loop_collects: "volumes_loop ls vols = Inr (vols @ parsed_volumes ls)"
proof (induction ls arbitrary: vols)
  case Nil
  show ?case by (simp add: parsed_volumes_def)
next
  case (Cons l ls)
  then show ?case by (cases "unmarshal_Volume l") (simp_all add: parsed_volumes_def)
qed

lemma containers_loop_panics:
  assumes "l \<in> set ls" and "unmarshal_Container l = Some c" and "length (ID c) < 12"
  shows "containers_loop ls cs = Inl PanicSliceBounds"
  using assms
proof (induction ls arbitrary: cs)
  case Nil
  then show ?case by simp
next
  case (Cons k ls)
  show ?case
  proof (cases "unmarshal_Container k")
    case None
    with Cons.prems have "l \<in> set ls" by auto
    with Cons None show ?thesis by simp
  next
    case (Some d)
    show ?thesis
    proof (cases "length (ID d) < 12")
      case True
      with Some show ?thesis by simp
    next
      case False
      with Some Cons.prems have "l \<in> set ls" by auto
      with Cons Some False show ?thesis by simp
    qed
  qed
qed

lemma images_loop_panics:
  assumes "l \<in> set ls" and "unmarshal_Image l = Some i"
    and "length (TrimPrefix (img_ID i) ''sha256:'') < 12"
  shows "images_loop ls imgs = Inl PanicSliceBounds"
  using assms
proof (induction ls arbitrary: imgs)
  case Nil
  then show ?case by simp
next
  case (Cons k ls)
  show ?case
  proof (cases "unmarshal_Image k")
    case None
    with Cons.prems have "l \<in> set ls" by auto
    with Cons None show ?thesis by simp
  next
    case (Some d)
    show ?thesis
    proof (cases "length (TrimPrefix (img_ID d) ''sha256:'') < 12")
      case True
      with Some show ?thesis by simp
    next
      case False
      with Some Cons.prems have "l \<in> set ls" by auto
      with Cons Some False show ?thesis by simp
    qed
  qed
qed

lemma containers_loop_all_refused:
  "\<forall>l\<in>set ls. unmarshal_Container l = None \<Longrightarrow> containers_loop ls cs = Inr cs"
  by (induction ls) simp_all

lemma volumes_loop_all_refused:
  "\<forall>l\<in>set ls. unmarshal_Volume l = None \<Longrightarrow> volumes_loop ls vs = Inr vs"
  by (induction ls) simp_all

lemma images_loop_all_refused:
  "\<forall>l\<in>set ls. unmarshal_Image l = None \<Longrightarrow> images_loop ls imgs = Inr imgs"
  by (induction ls) simp_all

subsection \<open>The example lines and listings, decoded\<close>

text \<open>Each of the lines of \<open>refused_lines\<close> makes the decoder return an error, for each
  of the three structs.\<close>

lemma refused_as_container: "list_all (\<lambda>l. unmarshal_Container l = None) refused_lines"
  by code_simp

lemma refused_as_image: "list_all (\<lambda>l. unmarshal_Image l = None) refused_lines"
  by code_simp

lemma refused_as_volume: "list_all (\<lambda>l. unmarshal_Volume l = None) refused_lines"
  by code_simp

text \<open>Each of the lines of \<open>accepted_short_lines\<close> decodes, to a record whose identifier
  has fewer than 12 bytes, behind the prefix too.\<close>

lemma accepted_short_as_container:
  "list_all (\<lambda>l. case unmarshal_Container l of None \<Rightarrow> False | Some c \<Rightarrow> length (ID c) < 12)
     accepted_short_lines"
  by code_simp

lemma accepted_short_as_image:
  "list_all (\<lambda>l. case unmarshal_Image l of
                    None \<Rightarrow> False
                  | Some i \<Rightarrow> length (TrimPrefix (img_ID i) ''sha256:'') < 12)
     accepted_short_lines"
  by code_simp

lemma not_json_container: "unmarshal_Container ''NOT-JSON'' = None"
  by code_simp

lemma not_json_image: "unmarshal_Image ''NOT-JSON'' = None"
  by code_simp

lemma not_json_volume: "unmarshal_Volume ''NOT-JSON'' = None"
  by code_simp

lemma number_container: "unmarshal_Container ''123'' = None"
  by code_simp

lemma number_image: "unmarshal_Image ''123'' = None"
  by code_simp

lemma number_volume: "unmarshal_Volume ''123'' = None"
  by code_simp

lemma partial_container: "unmarshal_Container ''{\"ID\":'' = None"
  by code_simp

lemma partial_image: "unmarshal_Image ''{\"ID\":'' = None"
  by code_simp

lemma partial_volume: "unmarshal_Volume ''{\"ID\":'' = None"
  by code_simp

lemma long_listing_lines:
  "listing_lines long_listing =
     [''{\"ID\":\"0123456789abcdef\"}'', ''NOT-JSON'', ''{\"ID\":\"fedcba9876543210\"}'']"
  by code_simp

lemma broken_listing_lines:
  "listing_lines broken_listing = [''NOT-JSON'', ''123'', ''{\"ID\":'']"
  by code_simp

lemma short_ps_listing_lines:
  "listing_lines short_ps_listing = [''{\"ID\":\"abc\", \"Names\":\"web\"}'', ''123'']"
  by code_simp

lemma short_image_listing_lines:
  "listing_lines short_image_listing =
     [''NOT-JSON'', ''{\"ID\":\"sha256:abcdef\", \"Tag\":\"v1\", \"Respository\":\"myapp\"}'']"
  by code_simp

lemma container_long_first:
  "unmarshal_Container ''{\"ID\":\"0123456789abcdef\"}''
     = Some \<lparr>ShortId = [], ID = ''0123456789abcdef'', Names = []\<rparr>"
  by code_simp

lemma container_long_second:
  "unmarshal_Container ''{\"ID\":\"fedcba9876543210\"}''
     = Some \<lparr>ShortId = [], ID = ''fedcba9876543210'', Names = []\<rparr>"
  by code_simp

lemma image_long_first:
  "unmarshal_Image ''{\"ID\":\"0123456789abcdef\"}''
     = Some \<lparr>img_ShortId = [], img_ID = ''0123456789abcdef'', Tag = [], Respository = []\<rparr>"
  by code_simp

lemma image_long_second:
  "unmarshal_Image ''{\"ID\":\"fedcba9876543210\"}''
     = Some \<lparr>img_ShortId = [], img_ID = ''fedcba9876543210'', Tag = [], Respository = []\<rparr>"
  by code_simp

lemma volume_long_first:
  "unmarshal_Volume ''{\"ID\":\"0123456789abcdef\"}'' = Some \<lparr>Name = []\<rparr>"
  by code_simp

lemma volume_long_second:
  "unmarshal_Volume ''{\"ID\":\"fedcba9876543210\"}'' = Some \<lparr>Name = []\<rparr>"
  by code_simp

lemma container_short:
  "unmarshal_Container ''{\"ID\":\"abc\", \"Names\":\"web\"}''
     = Some \<lparr>ShortId = [], ID = ''abc'', Names = ''web''\<rparr>"
  by code_simp

lemma image_short:
  "unmarshal_Image ''{\"ID\":\"sha256:abcdef\", \"Tag\":\"v1\", \"Respository\":\"myapp\"}''
     = Some \<lparr>img_ShortId = [], img_ID = ''sha256:abcdef'', Tag = ''v1'',
             Respository = ''myapp''\<rparr>"
  by code_simp

lemma listing_world_resolves:
  "comDockerCli (listing_world out) = Inr ''/usr/local/bin/com.docker.cli''"
  by (simp add: comDockerCli_def listing_world_def)

lemma listings_world_resolves:
  "comDockerCli (listings_world a b c) = Inr ''/usr/local/bin/com.docker.cli''"
  by (simp add: comDockerCli_def listings_world_def listing_world_def)

lemma listings_world_output:
  "cmd_output (listings_world a b c) p ps_args = a"
  "cmd_output (listings_world a b c) p image_ls_args = b"
  "cmd_output (listings_world a b c) p volume_ls_args = c"
  by (simp_all add: listings_world_def ps_args_def image_ls_args_def volume_ls_args_def)

subsection \<open>Malformed lines\<close>

text \<open>
  Claim C1, amended. For every catalog listing, of the containers, of the images and of
  the volumes, the loader decodes each line on its own and passes over any line on which
  the decoder returns an error: the catalog holds exactly the records of the lines that
  decode, in their order, provided each container and image record that decodes has an
  identifier of at least 12 bytes (for an image, behind the prefix \<^verbatim>\<open>sha256:\<close>).
  Nothing is asked of the volumes, nor of the lines that do not decode.
\<close>

theorem malformed_lines_skipped:
  assumes "comDockerCli w = Inr path"
  shows "(cmd_output w path ps_args = Some out
          \<and> (\<forall>l\<in>set (listing_lines out). \<forall>c. unmarshal_Container l = Some c
                \<longrightarrow> 12 \<le> length (ID c))
          \<longrightarrow> getContainers w = Inr (parsed_containers (listing_lines out)))
       \<and> (cmd_output w path image_ls_args = Some out'
          \<and> (\<forall>l\<in>set (listing_lines out'). \<forall>i. unmarshal_Image l = Some i
                \<longrightarrow> 12 \<le> length (TrimPrefix (img_ID i) ''sha256:''))
          \<longrightarrow> getImages w = Inr (parsed_images (listing_lines out')))
       \<and> (cmd_output w path volume_ls_args = Some out''
          \<longrightarrow> getVolumes w = Inr (parsed_volumes (listing_lines out'')))"
  using assms containers_loop_collects [of "listing_lines out" "[]"]
    images_loop_collects [of "listing_lines out'" "[]"]
    volumes_loop_collects [of "listing_lines out''" "[]"]
  by (simp add: getContainers_def getImages_def getVolumes_def)

text \<open>Two records of 16 bytes around a line that is not JSON: each catalog has the two
  records.\<close>

theorem malformed_lines_skipped_witness:
  "getContainers (listing_world long_listing) =
     Inr [\<lparr>ShortId = ''0123456789ab'', ID = ''0123456789abcdef'', Names = []\<rparr>,
          \<lparr>ShortId = ''fedcba987654'', ID = ''fedcba9876543210'', Names = []\<rparr>]
   \<and> getImages (listing_world long_listing) =
     Inr [\<lparr>img_ShortId = ''0123456789ab'', img_ID = ''0123456789abcdef'', Tag = [],
           Respository = []\<rparr>,
          \<lparr>img_ShortId = ''fedcba987654'', img_ID = ''fedcba9876543210'', Tag = [],
           Respository = []\<rparr>]
   \<and> getVolumes (listing_world long_listing) = Inr [\<lparr>Name = []\<rparr>, \<lparr>Name = []\<rparr>]"
proof -
  have 1: "cmd_output (listing_world long_listing) ''/usr/local/bin/com.docker.cli'' a
             = Some long_listing" for a
    by (simp add: listing_world_def)
  have 2: "TrimPrefix ''0123456789abcdef'' ''sha256:'' = ''0123456789abcdef''"
    "TrimPrefix ''fedcba9876543210'' ''sha256:'' = ''fedcba9876543210''"
    by (simp_all add: TrimPrefix_def HasPrefix_def)
  show ?thesis
    using malformed_lines_skipped [OF listing_world_resolves,
        where out = long_listing and out' = long_listing and out'' = long_listing]
    by (simp add: 1 2 long_listing_lines parsed_containers_def parsed_images_def
          parsed_volumes_def container_long_first container_long_second not_json_container
          image_long_first image_long_second not_json_image
          volume_long_first volume_long_second not_json_volume)
qed

text \<open>
  Claim C1 as the specification words it: the listing
  \<^verbatim>\<open>{"ID":"abc"}\<close>, \<^verbatim>\<open>NOT-JSON\<close>, \<^verbatim>\<open>{"ID":"def"}\<close> does not yield a catalog of two
  records. Its first line decodes, its identifier has 3 bytes, and \<^verbatim>\<open>c.ID[:12]\<close>
  panics.
\<close>

theorem spec_listing_counterexample:
  "getContainers (listing_world ''{\"ID\":\"abc\"}\<newline>NOT-JSON\<newline>{\"ID\":\"def\"}'')
     = Inl PanicSliceBounds"
  by code_simp

subsection \<open>Identifiers shorter than 12 bytes\<close>

text \<open>
  Claim C9. A line of the listing that decodes to a record whose identifier (for an image:
  behind the prefix \<^verbatim>\<open>sha256:\<close>) has fewer than 12 bytes makes the loader panic on
  the slice bound, whatever the other lines are: the record is neither passed over nor
  kept with a shorter identifier. Only a line on which the decoder returns an error is
  passed over.
\<close>

theorem short_identifier_panics:
  assumes "comDockerCli w = Inr path"
  shows "(cmd_output w path ps_args = Some out
          \<and> l \<in> set (listing_lines out) \<and> unmarshal_Container l = Some c
          \<and> length (ID c) < 12
          \<longrightarrow> getContainers w = Inl PanicSliceBounds)
       \<and> (cmd_output w path image_ls_args = Some out'
          \<and> l' \<in> set (listing_lines out') \<and> unmarshal_Image l' = Some i
          \<and> length (TrimPrefix (img_ID i) ''sha256:'') < 12
          \<longrightarrow> getImages w = Inl PanicSliceBounds)
       \<and> (unmarshal_Container l'' = None
          \<longrightarrow> containers_loop (l'' # ls) cs = containers_loop ls cs)
       \<and> (unmarshal_Image l'' = None \<longrightarrow> images_loop (l'' # ls') imgs = images_loop ls' imgs)"
proof (intro conjI impI)
  assume a: "cmd_output w path ps_args = Some out
          \<and> l \<in> set (listing_lines out) \<and> unmarshal_Container l = Some c
          \<and> length (ID c) < 12"
  then have "containers_loop (listing_lines out) [] = Inl PanicSliceBounds"
    by (intro containers_loop_panics [of l _ c]) auto
  with a assms show "getContainers w = Inl PanicSliceBounds"
    by (simp add: getContainers_def)
next
  assume a: "cmd_output w path image_ls_args = Some out'
          \<and> l' \<in> set (listing_lines out') \<and> unmarshal_Image l' = Some i
          \<and> length (TrimPrefix (img_ID i) ''sha256:'') < 12"
  then have "images_loop (listing_lines out') [] = Inl PanicSliceBounds"
    by (intro images_loop_panics [of l' _ i]) auto
  with a assms show "getImages w = Inl PanicSliceBounds"
    by (simp add: getImages_def)
qed simp_all

text \<open>
  A listing of the containers whose first line carries an identifier of 3 bytes, followed
  by a line the decoder refuses; a listing of the images whose first line is refused and
  whose second line carries the identifier \<^verbatim>\<open>sha256:abcdef\<close>, 13 bytes of which 6 stay
  behind the prefix.
\<close>

theorem short_identifier_panics_witness:
  "getContainers (listings_world (Some short_ps_listing) (Some short_image_listing) None)
     = Inl PanicSliceBounds
   \<and> getImages (listings_world (Some short_ps_listing) (Some short_image_listing) None)
     = Inl PanicSliceBounds
   \<and> containers_loop [''NOT-JSON''] [] = Inr []
   \<and> images_loop [''NOT-JSON''] [] = Inr []"
proof -
  let ?w = "listings_world (Some short_ps_listing) (Some short_image_listing) None"
  have 4: "length (TrimPrefix ''sha256:abcdef'' ''sha256:'') < 12"
    by (simp add: TrimPrefix_def HasPrefix_def)
  show ?thesis
    using short_identifier_panics [OF listings_world_resolves,
        where out = short_ps_listing and l = "''{\"ID\":\"abc\", \"Names\":\"web\"}''"
          and c = "\<lparr>ShortId = [], ID = ''abc'', Names = ''web''\<rparr>"
          and out' = short_image_listing
          and l' = "''{\"ID\":\"sha256:abcdef\", \"Tag\":\"v1\", \"Respository\":\"myapp\"}''"
          and i = "\<lparr>img_ShortId = [], img_ID = ''sha256:abcdef'', Tag = ''v1'',
                   Respository = ''myapp''\<rparr>"
          and l'' = "''NOT-JSON''" and ls = "[]" and ls' = "[]" and cs = "[]" and imgs = "[]"]
      4
    by (simp add: listings_world_output short_ps_listing_lines short_image_listing_lines
          container_short image_short not_json_container not_json_image)
qed

section \<open>Finding the classic CLI, and what the loader recovers from\<close>

text \<open>
  Claim C8, amended. The path of the classic CLI is the override variable when it is set
  to a non-empty value; otherwise the file of that name beside the current executable
  when it exists; otherwise what the search path gives. When none of them gives a path,
  the process exits with status 1 after writing the error and the line
  \<^verbatim>\<open>Current PATH : <search path>\<close> to standard error. For each kind on its own, a
  listing command that fails gives the empty collection for that kind, and so does a
  listing on every line of which the decoder returns an error: neither failure reaches the
  caller.
\<close>

theorem resolution_order:
  "(getenv w ''DOCKER_COM_DOCKER_CLI'' \<noteq> []
      \<longrightarrow> comDockerCli w = Inr (getenv w ''DOCKER_COM_DOCKER_CLI''))
   \<and> (getenv w ''DOCKER_COM_DOCKER_CLI'' = [] \<and> os_executable w = Some exe
        \<and> eval_symlinks w exe = Some real \<and> stat_ok w (beside w real (ComDockerCli w))
        \<and> beside w real (ComDockerCli w) \<noteq> []
      \<longrightarrow> comDockerCli w = Inr (beside w real (ComDockerCli w)))
   \<and> (getenv w ''DOCKER_COM_DOCKER_CLI'' = [] \<and> findBinary w (ComDockerCli w) = []
        \<and> look_path w (ComDockerCli w) = Inr found
      \<longrightarrow> comDockerCli w = Inr found)
   \<and> (getenv w ''DOCKER_COM_DOCKER_CLI'' = [] \<and> findBinary w (ComDockerCli w) = []
        \<and> look_path w (ComDockerCli w) = Inl err
      \<longrightarrow> comDockerCli w = Inl (ProcessExit 1 [err, ''Current PATH : '' @ getenv w ''PATH'']))
   \<and> (comDockerCli w = Inr path \<and> cmd_output w path ps_args = None
      \<longrightarrow> getContainers w = Inr [])
   \<and> (comDockerCli w = Inr path \<and> cmd_output w path volume_ls_args = None
      \<longrightarrow> getVolumes w = Inr [])
   \<and> (comDockerCli w = Inr path \<and> cmd_output w path image_ls_args = None
      \<longrightarrow> getImages w = Inr [])
   \<and> (comDockerCli w = Inr path \<and> cmd_output w path ps_args = Some out
        \<and> (\<forall>l\<in>set (listing_lines out). unmarshal_Container l = None)
      \<longrightarrow> getContainers w = Inr [])
   \<and> (comDockerCli w = Inr path \<and> cmd_output w path volume_ls_args = Some out'
        \<and> (\<forall>l\<in>set (listing_lines out'). unmarshal_Volume l = None)
      \<longrightarrow> getVolumes w = Inr [])
   \<and> (comDockerCli w = Inr path \<and> cmd_output w path image_ls_args = Some out''
        \<and> (\<forall>l\<in>set (listing_lines out''). unmarshal_Image l = None)
      \<longrightarrow> getImages w = Inr [])"
proof (intro conjI impI)
  assume a: "comDockerCli w = Inr path \<and> cmd_output w path ps_args = Some out
        \<and> (\<forall>l\<in>set (listing_lines out). unmarshal_Container l = None)"
  then have "containers_loop (listing_lines out) [] = Inr []"
    by (intro containers_loop_all_refused) simp
  with a show "getContainers w = Inr []" by (simp add: getContainers_def)
next
  assume a: "comDockerCli w = Inr path \<and> cmd_output w path volume_ls_args = Some out'
        \<and> (\<forall>l\<in>set (listing_lines out'). unmarshal_Volume l = None)"
  then have "volumes_loop (listing_lines out') [] = Inr []"
    by (intro volumes_loop_all_refused) simp
  with a show "getVolumes w = Inr []" by (simp add: getVolumes_def)
next
  assume a: "comDockerCli w = Inr path \<and> cmd_output w path image_ls_args = Some out''
        \<and> (\<forall>l\<in>set (listing_lines out''). unmarshal_Image l = None)"
  then have "images_loop (listing_lines out'') [] = Inr []"
    by (intro images_loop_all_refused) simp
  with a show "getImages w = Inr []" by (simp add: getImages_def)
qed (simp_all add: comDockerCli_def findBinary_def getContainers_def getVolumes_def
        getImages_def Let_def)

text \<open>
  One world for each way of finding the path; a world in which the listing of the
  containers and that of the volumes fail while that of the images has no line that
  decodes; and a world in which it is the other way round.
\<close>

theorem resolution_order_witness:
  "comDockerCli (resolving_world ''/custom/docker'' True (Inr ''/usr/bin/com.docker.cli''))
     = Inr ''/custom/docker''
   \<and> comDockerCli (resolving_world [] True (Inr ''/usr/bin/com.docker.cli''))
     = Inr ''/opt/docker/com.docker.cli''
   \<and> comDockerCli (resolving_world [] False (Inr ''/usr/bin/com.docker.cli''))
     = Inr ''/usr/bin/com.docker.cli''
   \<and> comDockerCli (resolving_world [] False (Inl ''executable file not found in $PATH''))
     = Inl (ProcessExit 1 [''executable file not found in $PATH'',
                           ''Current PATH : /usr/bin:/bin''])
   \<and> getContainers (listings_world None (Some broken_listing) None) = Inr []
   \<and> getVolumes (listings_world None (Some broken_listing) None) = Inr []
   \<and> getImages (listings_world None (Some broken_listing) None) = Inr []
   \<and> getContainers (listings_world (Some broken_listing) None (Some broken_listing)) = Inr []
   \<and> getVolumes (listings_world (Some broken_listing) None (Some broken_listing)) = Inr []
   \<and> getImages (listings_world (Some broken_listing) None (Some broken_listing)) = Inr []"
proof -
  let ?w1 = "resolving_world ''/custom/docker'' True (Inr ''/usr/bin/com.docker.cli'')"
  let ?w2 = "resolving_world [] True (Inr ''/usr/bin/com.docker.cli'')"
  let ?w3 = "resolving_world [] False (Inr ''/usr/bin/com.docker.cli'')"
  let ?w4 = "resolving_world [] False (Inl ''executable file not found in $PATH'')"
  let ?w5 = "listings_world None (Some broken_listing) None"
  let ?w6 = "listings_world (Some broken_listing) None (Some broken_listing)"
  let ?p = "''/usr/local/bin/com.docker.cli''"
  have 1: "comDockerCli ?w1 = Inr ''/custom/docker''"
    using resolution_order [where w = ?w1] by (simp add: resolving_world_def)
  have 2: "comDockerCli ?w2 = Inr ''/opt/docker/com.docker.cli''"
    using resolution_order [where w = ?w2 and exe = "''/opt/docker/docker''"
        and real = "''/opt/docker/docker''"]
    by (simp add: resolving_world_def ComDockerCli_def)
  have 3: "comDockerCli ?w3 = Inr ''/usr/bin/com.docker.cli''"
    using resolution_order [where w = ?w3 and found = "''/usr/bin/com.docker.cli''"]
    by (simp add: resolving_world_def findBinary_def)
  have 4: "comDockerCli ?w4 = Inl (ProcessExit 1 [''executable file not found in $PATH'',
                           ''Current PATH : /usr/bin:/bin''])"
    using resolution_order [where w = ?w4 and err = "''executable file not found in $PATH''"]
    by (simp add: resolving_world_def findBinary_def)
  have 5: "getContainers ?w5 = Inr [] \<and> getVolumes ?w5 = Inr [] \<and> getImages ?w5 = Inr []"
    using resolution_order [where w = ?w5 and path = ?p and out'' = broken_listing]
    by (simp add: listings_world_resolves listings_world_output broken_listing_lines
          not_json_image number_image partial_image)
  have 6: "getContainers ?w6 = Inr [] \<and> getVolumes ?w6 = Inr [] \<and> getImages ?w6 = Inr []"
    using resolution_order [where w = ?w6 and path = ?p and out = broken_listing
        and out' = broken_listing]
    by (simp add: listings_world_resolves listings_world_output broken_listing_lines
          not_json_container number_container partial_container
          not_json_volume number_volume partial_volume)
  from 1 2 3 4 5 6 show ?thesis by simp
qed

text \<open>
  Claim C8 as the specification words it calls the failed resolution the only failure
  the core cannot recover from. In the world below the resolution succeeds and the
  loader of the images still panics: the one line of the listing decodes, and its
  identifier has 4 bytes behind the prefix.
\<close>

theorem resolved_yet_panics_counterexample:
  "comDockerCli
     (listing_world ''{\"ID\":\"sha256:4f5e\", \"Tag\":\"v1\", \"Respository\":\"myapp\"}'')
     = Inr ''/usr/local/bin/com.docker.cli''
   \<and> getImages
     (listing_world ''{\"ID\":\"sha256:4f5e\", \"Tag\":\"v1\", \"Respository\":\"myapp\"}'')
     = Inl PanicSliceBounds"
  by code_simp

section \<open>The signal relay\<close>

lemma relay_before_creation:
  "relay isRuntimeSig None (map Signal_received sigs @ es) = relay isRuntimeSig None es"
  by (induction sigs) simp_all

lemma relay_until_completion:
  "relay isRuntimeSig (Some pid) (map Signal_received sigs @ Completion # es)
     = map (Pair pid) (filter (\<lambda>sig. \<not> isRuntimeSig sig) sigs)"
  by (induction sigs) simp_all

text \<open>
  Claim C6. Let the signals \<open>early\<close> reach the relay before the child process exists, the
  signals \<open>later\<close> after that and before the completion notification, and anything at all
  after the notification. The calls the relay makes are exactly the signals of \<open>later\<close>
  that are not of the runtime's kind, each sent to the child as it was received and in
  the order of receipt: the signals of \<open>early\<close> are dropped, those of the runtime's kind
  are dropped, and nothing that comes after the notification is forwarded. When the
  notification comes and no child was ever created, nothing is forwarded.
\<close>

theorem relay_forwards:
  "relay isRuntimeSig None
       (map Signal_received early @ Process_created pid # map Signal_received later
          @ Completion # afterwards)
     = map (Pair pid) (filter (\<lambda>sig. \<not> isRuntimeSig sig) later)
   \<and> relay isRuntimeSig None (map Signal_received early @ Completion # afterwards) = []"
  by (simp add: relay_before_creation relay_until_completion)

section \<open>The regular expressions of the rewriting\<close>

subsection \<open>The template of a decoration\<close>

lemma expand_no_dollar:
  assumes "CHR ''$'' \<notin> set t"
  shows "expand t m = Some t"
proof -
  have "\<forall>c\<in>set t. c \<noteq> CHR ''$''" using assms by auto
  then have d: "dropWhile (\<lambda>c. c \<noteq> CHR ''$'') t = []" by simp
  show ?thesis by (subst expand.simps) (simp only: d list.case)
qed

lemma expand_group_one:
  assumes "CHR ''$'' \<notin> set a" and "CHR ''$'' \<notin> set b"
    and "b \<noteq> []" and "\<not> name_byte (hd b)" and "byte (hd b) < 0x80"
  shows "expand (a @ ''$1'' @ b) m = Some (a @ m @ b)"
proof -
  have a: "\<And>c. c \<in> set a \<Longrightarrow> c \<noteq> CHR ''$''" using assms(1) by auto
  have d: "dropWhile (\<lambda>c. c \<noteq> CHR ''$'') (a @ ''$1'' @ b) = CHR ''$'' # CHR ''1'' # b"
    using a by (simp add: dropWhile_append2)
  have t: "takeWhile (\<lambda>c. c \<noteq> CHR ''$'') (a @ ''$1'' @ b) = a"
    using a by (simp add: takeWhile_append2)
  have nb: "name_byte (CHR ''1'')" by (simp add: name_byte_def alnum_def byte_def)
  obtain c b' where b: "b = c # b'" using assms(3) by (cases b) auto
  have e: "extract_name (CHR ''1'' # b) = Named ''1'' b"
    using assms(4,5) nb by (simp add: extract_name_def Let_def b)
  have "expand (a @ ''$1'' @ b) m = Some (a @ group_text ''1'' m @ b)"
    by (subst expand.simps)
       (simp only: d t e expand_no_dollar [OF assms(2)] Let_def list.case extracted.case
          option.case list.sel, simp)
  then show ?thesis by (simp add: group_text_def)
qed

lemma expand_enhance:
  assumes "CHR ''$'' \<notin> set kind" and "CHR ''$'' \<notin> set ident"
  shows "expand (enhance kind ''$1'' ident) m = Some (enhance kind m ident)"
proof -
  let ?a = "OSC @ ''8;;docker-desktop://dashboard/'' @ kind @ ''?id='' @ ident @ BEL"
  let ?b = "OSC @ ''8;;'' @ BEL"
  have 1: "enhance kind ''$1'' ident = ?a @ ''$1'' @ ?b"
    by (simp add: enhance_def SEP_def)
  have 2: "enhance kind m ident = ?a @ m @ ?b"
    by (simp add: enhance_def SEP_def)
  have 3: "CHR ''$'' \<notin> set ?a" using assms by (simp add: OSC_def BEL_def)
  have 4: "CHR ''$'' \<notin> set ?b" by (simp add: OSC_def BEL_def)
  have 5: "?b \<noteq> []" "\<not> name_byte (hd ?b)" "byte (hd ?b) < 0x80"
    by (simp_all add: OSC_def name_byte_def alnum_def byte_def)
  show ?thesis
    unfolding 1 2 by (rule expand_group_one [OF 3 4 5])
qed

subsection \<open>Plain patterns\<close>

lemma is_plain_not_special:
  "is_plain c \<Longrightarrow> c \<noteq> CHR ''.'' \<and> c \<noteq> CHR ''['' \<and> c \<noteq> CHR ''*''"
  by (auto simp: is_plain_def)

lemma parse_items_Nil: "parse_items [] = Some []"
  by (subst parse_items.simps) simp

lemma parse_items_plain:
  assumes "plain x" and "rest = [] \<or> hd rest \<noteq> CHR ''*''"
  shows "parse_items (x @ rest) = (case parse_items rest of None \<Rightarrow> None | Some is \<Rightarrow> Some (lits x @ is))"
  using assms
proof (induction x)
  case Nil
  show ?case by (simp add: lits_def split: option.splits)
next
  case (Cons c x)
  then have pc: "is_plain c" and px: "plain x" by (simp_all add: plain_def)
  have atom: "parse_atom (c # x @ rest) = Some (Lit c, x @ rest)"
    using is_plain_not_special [OF pc] pc by (simp add: parse_atom_def)
  have nostar: "x @ rest = [] \<or> hd (x @ rest) \<noteq> CHR ''*''"
  proof (cases x)
    case Nil
    with Cons.prems show ?thesis by simp
  next
    case (Cons d x')
    with px have "is_plain d" by (simp add: plain_def)
    with Cons show ?thesis using is_plain_not_special [of d] by simp
  qed
  have ih: "parse_items (x @ rest) = (case parse_items rest of None \<Rightarrow> None | Some is \<Rightarrow> Some (lits x @ is))"
    using Cons.IH px Cons.prems(2) by simp
  show ?case
  proof (cases "x @ rest")
    case Nil
    then show ?thesis
      using atom by (subst parse_items.simps) (simp add: lits_def parse_items_Nil)
  next
    case (Cons q r)
    with nostar have "q \<noteq> CHR ''*''" by simp
    with Cons atom ih show ?thesis
      by (subst parse_items.simps) (auto simp: lits_def split: option.splits)
  qed
qed

lemma compile_literal:
  assumes "plain x"
  shows "compile (''('' @ x @ '')'') = Some (lits x)"
  using parse_items_plain [OF assms, of "[]"]
  by (simp add: compile_def butlast_append parse_items_Nil)

lemma parse_id_class: "parse_items ''[a-z0-9]*'' = Some [id_class]"
  by code_simp

lemma compile_identifier:
  assumes "plain x"
  shows "compile (''('' @ x @ ''[a-z0-9]*'' @ '')'') = Some (lits x @ [id_class])"
proof -
  have "butlast (x @ ''[a-z0-9]*)'') = x @ ''[a-z0-9]*''"
    by (simp add: butlast_append)
  then show ?thesis
    using parse_items_plain [OF assms, of "''[a-z0-9]*''"]
    by (simp add: compile_def parse_id_class)
qed

subsection \<open>Matching a plain pattern\<close>

lemma match_here_lits:
  "match_here (lits x @ is) s =
     (if HasPrefix s x
      then (case match_here is (drop (length x) s) of None \<Rightarrow> None | Some n \<Rightarrow> Some (length x + n))
      else None)"
proof (induction x arbitrary: s)
  case Nil
  show ?case by (simp add: lits_def HasPrefix_def split: option.splits)
next
  case (Cons c x)
  show ?case
  proof (cases s)
    case Nil
    then show ?thesis by (simp add: lits_def HasPrefix_def match_here.simps)
  next
    case (Cons d s')
    show ?thesis
      using Cons.IH [of s'] Cons
      by (auto simp: lits_def HasPrefix_def match_here.simps split: option.splits)
  qed
qed


subsection \<open>Where a plain pattern is found\<close>

lemma find_match_sound:
  "find_match re s = Some (i, n) \<Longrightarrow> i \<le> length s \<and> match_here re (drop i s) = Some n"
proof (induction re s arbitrary: i n rule: find_match.induct)
  case (1 re s)
  show ?case
  proof (cases "match_here re s")
    case (Some k)
    with "1.prems" show ?thesis by (simp add: find_match.simps)
  next
    case None
    with "1.prems" have ne: "s \<noteq> []"
      by (auto simp: find_match.simps split: if_splits)
    from None "1.prems" ne obtain j where
      j: "find_match re (drop (rune_width s) s) = Some (j, n)" and i: "i = rune_width s + j"
      by (auto simp: find_match.simps [of re s] split: option.splits)
    from "1.IH" [OF None ne j]
    have "j \<le> length (drop (rune_width s) s)"
      and "match_here re (drop j (drop (rune_width s) s)) = Some n" by simp_all
    with i rune_width_bounds [OF ne] show ?thesis
      by (auto simp: add.commute)
  qed
qed

lemma HasPrefix_Nil [simp]: "HasPrefix s []"
  by (simp add: HasPrefix_def)

lemma Contains_drop: "i \<le> length s \<Longrightarrow> HasPrefix (drop i s) x \<Longrightarrow> Contains s x"
proof (induction s arbitrary: i)
  case Nil
  then show ?case by (simp add: HasPrefix_def)
next
  case (Cons c s)
  then show ?case by (cases i) auto
qed

lemma Contains_append: "Contains (pre @ x @ post) x"
  by (rule Contains_drop [of "length pre"]) (simp_all add: HasPrefix_def)

lemma Contains_decompose: "Contains s x \<Longrightarrow> \<exists>pre post. s = pre @ x @ post"
proof (induction s)
  case Nil
  then show ?case by simp
next
  case (Cons c s)
  show ?case
  proof (cases "HasPrefix (c # s) x")
    case True
    then have "c # s = [] @ x @ drop (length x) (c # s)"
      by (metis HasPrefix_def append_Nil append_take_drop_id)
    then show ?thesis by blast
  next
    case False
    with Cons obtain pre post where "s = pre @ x @ post" by auto
    then have "c # s = (c # pre) @ x @ post" by simp
    then show ?thesis by blast
  qed
qed

lemma find_match_lits_None:
  assumes "\<not> Contains s x"
  shows "find_match (lits x @ is) s = None"
proof (rule ccontr)
  assume "find_match (lits x @ is) s \<noteq> None"
  then obtain i n where "find_match (lits x @ is) s = Some (i, n)" by auto
  from find_match_sound [OF this]
  have "i \<le> length s" and "match_here (lits x @ is) (drop i s) = Some n" by simp_all
  then have "HasPrefix (drop i s) x"
    by (simp add: match_here_lits split: if_splits)
  with \<open>i \<le> length s\<close> assms show False by (auto dest: Contains_drop)
qed

lemma replaceAll_no_match:
  "find_match re src = None \<Longrightarrow> replaceAll re src repl 0 0 [] = Some src"
  by (subst replaceAll.simps) simp

lemma ReplaceAllString_literal_absent:
  assumes "plain x" and "\<not> Contains src x"
  shows "ReplaceAllString (''('' @ x @ '')'') src repl = Inr src"
  using compile_literal [OF assms(1)] find_match_lits_None [OF assms(2), of "[]"]
  by (simp add: ReplaceAllString_def replaceAll_no_match)

lemma ReplaceAllString_identifier_absent:
  assumes "plain x" and "\<not> Contains src x"
  shows "ReplaceAllString (''('' @ x @ ''[a-z0-9]*'' @ '')'') src repl = Inr src"
  using compile_identifier [OF assms(1)] find_match_lits_None [OF assms(2), of "[id_class]"]
  by (simp add: ReplaceAllString_def replaceAll_no_match)

lemma rune_width_inner:
  assumes "0 < j" and "j < rune_width s"
  shows "0x80 \<le> byte (s ! j)"
proof (cases s)
  case Nil
  with assms show ?thesis by (simp add: rune_width_def)
next
  case (Cons c r)
  have j: "j = 1 \<or> j = 2 \<or> j = 3"
    using assms Cons by (auto simp: rune_width_def Let_def split: if_splits)
  have lo: "0x80 \<le> second_lo (byte c)" by (simp add: second_lo_def)
  from j show ?thesis
  proof (elim disjE)
    assume "j = 1"
    with assms Cons lo show ?thesis
      by (auto simp: rune_width_def Let_def split: if_splits)
  next
    assume "j = 2"
    with assms Cons show ?thesis
      by (auto simp: rune_width_def Let_def continuation_def split: if_splits)
  next
    assume "j = 3"
    with assms Cons show ?thesis
      by (auto simp: rune_width_def Let_def continuation_def split: if_splits)
  qed
qed

lemma Contains_suffix: "Contains s x \<Longrightarrow> Contains (p @ s) x"
proof -
  assume "Contains s x"
  then obtain a b where "s = a @ x @ b" by (auto dest: Contains_decompose)
  then have "p @ s = (p @ a) @ x @ b" by simp
  then show ?thesis by (metis Contains_append)
qed

lemma plain_hd_ascii: "plain x \<Longrightarrow> x \<noteq> [] \<Longrightarrow> byte (hd x) < 0x80"
  by (cases x) (simp_all add: plain_def is_plain_def)

lemma find_match_first:
  assumes "plain x" and "x \<noteq> []" and "match_here is post = Some n"
  shows "\<not> Contains (pre @ butlast x) x \<Longrightarrow>
         find_match (lits x @ is) (pre @ x @ post) = Some (length pre, length x + n)"
proof (induction pre rule: length_induct)
  case (1 pre)
  let ?s = "pre @ x @ post"
  show ?case
  proof (cases pre)
    case Nil
    have "match_here (lits x @ is) (x @ post) = Some (length x + n)"
      using assms(3) by (simp add: match_here_lits HasPrefix_def)
    with Nil show ?thesis by (simp add: find_match.simps)
  next
    case (Cons c pre')
    have no: "match_here (lits x @ is) ?s = None"
    proof (rule ccontr)
      assume "match_here (lits x @ is) ?s \<noteq> None"
      then have "HasPrefix ?s x" by (simp add: match_here_lits split: if_splits)
      then have "take (length x) (pre @ x @ post) = x" by (simp add: HasPrefix_def)
      moreover have "length x \<le> length (pre @ butlast x)" using Cons assms(2) by simp
      moreover have "pre @ x @ post = (pre @ butlast x) @ [last x] @ post"
        using assms(2) by simp
      ultimately have "take (length x) (pre @ butlast x) = x"
        by (metis append_eq_conv_conj take_append take_all_iff append_take_drop_id
              length_append take_add)
      then have "HasPrefix (drop 0 (pre @ butlast x)) x" by (simp add: HasPrefix_def)
      then have "Contains (pre @ butlast x) x" by (rule Contains_drop [rotated]) simp
      with "1.prems" show False by simp
    qed
    have ne: "?s \<noteq> []" using Cons by simp
    have w: "rune_width ?s \<le> length pre"
    proof (rule ccontr)
      assume "\<not> rune_width ?s \<le> length pre"
      then have "length pre < rune_width ?s" by simp
      moreover have "0 < length pre" using Cons by simp
      ultimately have "0x80 \<le> byte (?s ! length pre)" by (rule rune_width_inner [rotated])
      moreover have "?s ! length pre = hd x"
        using assms(2) by (cases x) (simp_all add: nth_append)
      ultimately show False using plain_hd_ascii [OF assms(1,2)] by simp
    qed
    have pos: "0 < rune_width ?s" using rune_width_bounds [OF ne] by simp
    let ?pre' = "drop (rune_width ?s) pre"
    have d: "drop (rune_width ?s) ?s = ?pre' @ x @ post" using w by simp
    have shorter: "length ?pre' < length pre" using pos Cons by simp
    have "\<not> Contains (?pre' @ butlast x) x"
    proof
      assume "Contains (?pre' @ butlast x) x"
      then have "Contains (take (rune_width ?s) pre @ ?pre' @ butlast x) x"
        by (rule Contains_suffix)
      moreover have "take (rune_width ?s) pre @ ?pre' @ butlast x = pre @ butlast x"
        by (simp add: append_assoc [symmetric] del: append_assoc)
      ultimately show False using "1.prems" by simp
    qed
    with "1.IH" shorter
    have "find_match (lits x @ is) (?pre' @ x @ post) = Some (length ?pre', length x + n)"
      by blast
    with no ne d w show ?thesis
      by (subst find_match.simps) simp
  qed
qed

subsection \<open>The replacement loop\<close>

lemma append_match_extends:
  "append_match repl src l a0 a1 buf = Some buf' \<Longrightarrow> \<exists>t. buf' = buf @ t"
  by (auto simp: append_match_def Let_def split: if_splits option.splits)

lemma replaceAll_extends:
  "replaceAll re src repl l p buf = Some r \<Longrightarrow> \<exists>t. r = buf @ t"
proof (induction re src repl l p buf arbitrary: r rule: replaceAll.induct)
  case (1 re src repl l p buf)
  show ?case
  proof (cases "length src < p")
    case True
    with "1.prems" show ?thesis by (subst (asm) replaceAll.simps) auto
  next
    case False
    show ?thesis
    proof (cases "find_match re (drop p src)")
      case None
      with False "1.prems" show ?thesis by (subst (asm) replaceAll.simps) auto
    next
      case (Some m)
      obtain i n where m: "m = (i, n)" by (cases m)
      have "(case append_match repl src l (p + i) (p + i + n) buf of
               None \<Rightarrow> None
             | Some buf' \<Rightarrow> replaceAll re src repl (p + i + n)
                              (next_search src p (p + i + n)) buf') = Some r"
        using "1.prems" False Some m by (subst (asm) replaceAll.simps) simp
      then obtain buf' where
        a: "append_match repl src l (p + i) (p + i + n) buf = Some buf'"
        and r: "replaceAll re src repl (p + i + n) (next_search src p (p + i + n)) buf' = Some r"
        by (auto split: option.splits)
      from "1.IH" [OF False Some m [symmetric] a r] obtain t where "r = buf' @ t" by auto
      moreover from append_match_extends [OF a] obtain u where "buf' = buf @ u" by auto
      ultimately show ?thesis by simp
    qed
  qed
qed

lemma replaceAll_total:
  assumes "\<forall>m. expand repl m \<noteq> None"
  shows "\<exists>r. replaceAll re src repl l p buf = Some r"
  using assms
proof (induction re src repl l p buf rule: replaceAll.induct)
  case (1 re src repl l p buf)
  show ?case
  proof (cases "length src < p")
    case True
    then show ?thesis by (subst replaceAll.simps) simp
  next
    case False
    show ?thesis
    proof (cases "find_match re (drop p src)")
      case None
      with False show ?thesis by (subst replaceAll.simps) simp
    next
      case (Some m)
      obtain i n where m: "m = (i, n)" by (cases m)
      have "expand repl (take n (drop (p + i) src)) \<noteq> None"
        using "1.prems" by simp
      then have "append_match repl src l (p + i) (p + i + n) buf \<noteq> None"
        by (auto simp: append_match_def Let_def)
      then obtain buf' where a: "append_match repl src l (p + i) (p + i + n) buf = Some buf'"
        by auto
      from "1.IH" [OF False Some m [symmetric] a "1.prems"]
      obtain r where "replaceAll re src repl (p + i + n) (next_search src p (p + i + n)) buf' = Some r"
        by auto
      with False Some m a show ?thesis by (subst replaceAll.simps) simp
    qed
  qed
qed



lemma ReplaceAllString_first:
  assumes "compile pattern = Some (lits x @ is)"
    and "plain x" and "x \<noteq> []" and "\<not> Contains (pre @ butlast x) x"
    and "match_here is post = Some n"
    and "CHR ''$'' \<notin> set kind" and "CHR ''$'' \<notin> set ident"
  shows "\<exists>rest. ReplaceAllString pattern (pre @ x @ post) (enhance kind ''$1'' ident)
           = Inr (pre @ enhance kind (x @ take n post) ident @ rest)"
proof -
  let ?src = "pre @ x @ post"
  let ?repl = "enhance kind ''$1'' ident"
  let ?re = "lits x @ is"
  have f: "find_match ?re (drop 0 ?src) = Some (length pre, length x + n)"
    using find_match_first [OF assms(2,3,5,4)] by simp
  have ex: "\<And>m. expand ?repl m = Some (enhance kind m ident)"
    by (rule expand_enhance [OF assms(6,7)])
  have a: "append_match ?repl ?src 0 (0 + length pre) (0 + length pre + (length x + n)) []
             = Some (pre @ enhance kind (x @ take n post) ident)"
    using assms(3) by (simp add: append_match_def ex)
  obtain r where r: "replaceAll ?re ?src ?repl (0 + length pre + (length x + n))
           (next_search ?src 0 (0 + length pre + (length x + n)))
           (pre @ enhance kind (x @ take n post) ident) = Some r"
    using replaceAll_total [of ?repl] ex by (metis option.distinct(1))
  from replaceAll_extends [OF r] obtain rest where
    "r = (pre @ enhance kind (x @ take n post) ident) @ rest" by auto
  moreover have "replaceAll ?re ?src ?repl 0 0 [] = Some r"
    using f a r by (subst replaceAll.simps) simp
  ultimately show ?thesis
    using assms(1) by (auto simp: ReplaceAllString_def)
qed

subsection \<open>Replacing every match of a plain pattern\<close>

lemma find_match_start:
  "find_match re s = Some (i, n) \<Longrightarrow> i = 0 \<or> rune_width s \<le> i"
  by (subst (asm) find_match.simps) (auto split: option.splits if_splits)

lemma rune_width_ascii: "s \<noteq> [] \<Longrightarrow> byte (hd s) < 0x80 \<Longrightarrow> rune_width s = 1"
  by (cases s) (simp_all add: rune_width_def lead_size_def)

text \<open>Patterns that begin with a plain byte: a match is not empty and begins with an
  ASCII byte.\<close>

lemma match_here_lits_Some:
  assumes "plain x" and "x \<noteq> []" and "match_here (lits x @ is) s = Some n"
  shows "0 < n \<and> s \<noteq> [] \<and> byte (hd s) < 0x80 \<and> HasPrefix s x"
proof -
  from assms(3) have h: "HasPrefix s x" and "length x \<le> n"
    by (auto simp: match_here_lits split: if_splits option.splits)
  with assms(2) have "0 < n" by (cases x) auto
  moreover from h assms(2) have "s \<noteq> []" and "hd s = hd x"
    by (cases s; cases x; auto simp: HasPrefix_def)+
  ultimately show ?thesis using plain_hd_ascii [OF assms(1,2)] h by simp
qed

lemma replaceAll_replace_matches:
  assumes "plain x" and "x \<noteq> []" and "\<And>m. expand repl m = Some (f m)"
  shows "p \<le> length src \<Longrightarrow>
         replaceAll (lits x @ is) src repl p p buf
           = Some (buf @ replace_matches (lits x @ is) f (drop p src))"
proof (induction "length src - p" arbitrary: p buf rule: less_induct)
  case less
  let ?re = "lits x @ is"
  let ?s = "drop p src"
  show ?case
  proof (cases "find_match ?re ?s")
    case None
    with less.prems show ?thesis
      by (subst replaceAll.simps, subst replace_matches.simps) simp
  next
    case (Some m)
    obtain i n where m: "m = (i, n)" by (cases m)
    from find_match_sound [OF Some [unfolded m]]
    have i: "i \<le> length ?s" and mh: "match_here ?re (drop i ?s) = Some n" by simp_all
    from match_here_lits_Some [OF assms(1,2) mh]
    have n: "0 < n" and asc: "drop i ?s \<noteq> []" "byte (hd (drop i ?s)) < 0x80" by simp_all
    from match_here_bound [OF mh] have nb: "n \<le> length (drop i ?s)" .
    have le: "p + i + n \<le> length src" using nb i less.prems by simp
    have am: "append_match repl src p (p + i) (p + i + n) buf
                = Some (buf @ take i ?s @ f (take n (drop i ?s)))"
      using n by (simp add: append_match_def assms(3) add.commute)
    have w: "rune_width ?s \<le> i + n"
    proof (cases "i = 0")
      case True
      with asc have "rune_width ?s = 1" by (intro rune_width_ascii) simp_all
      with n show ?thesis by simp
    next
      case False
      with find_match_start [OF Some [unfolded m]] show ?thesis by simp
    qed
    have ns: "next_search src p (p + i + n) = p + i + n"
      using w n by (simp add: next_search_def Let_def)
    have ih: "replaceAll ?re src repl (p + i + n) (p + i + n)
                (buf @ take i ?s @ f (take n (drop i ?s)))
              = Some ((buf @ take i ?s @ f (take n (drop i ?s)))
                       @ replace_matches ?re f (drop (p + i + n) src))"
      using n le less.prems by (intro less.hyps) simp_all
    have rm: "replace_matches ?re f ?s
                = take i ?s @ f (take n (drop i ?s)) @ replace_matches ?re f (drop (i + n) ?s)"
      using Some m n by (subst replace_matches.simps) simp
    have "replaceAll ?re src repl p p buf
            = Some ((buf @ take i ?s @ f (take n (drop i ?s)))
                     @ replace_matches ?re f (drop (p + i + n) src))"
      using less.prems Some m am ns ih by (subst replaceAll.simps) simp
    with rm show ?thesis by (simp add: add.commute add.left_commute)
  qed
qed

subsection \<open>What a hyperlink in the line is to a later replacement\<close>


















subsection \<open>The template of a decoration, for any identifier\<close>

lemma expand_at_dollar:
  assumes "dropWhile (\<lambda>c. c \<noteq> CHR ''$'') t = d # after"
  shows "expand t m =
     (if after \<noteq> [] \<and> hd after = CHR ''$'' then
        (case expand (tl after) m of
           None \<Rightarrow> None
         | Some r \<Rightarrow> Some (takeWhile (\<lambda>c. c \<noteq> CHR ''$'') t @ ''$'' @ r))
      else
        (case extract_name after of
           Malformed \<Rightarrow>
             (case expand after m of
                None \<Rightarrow> None
              | Some r \<Rightarrow> Some (takeWhile (\<lambda>c. c \<noteq> CHR ''$'') t @ ''$'' @ r))
         | Beyond \<Rightarrow> None
         | Named name rest \<Rightarrow>
             (case expand rest m of
                None \<Rightarrow> None
              | Some r \<Rightarrow> Some (takeWhile (\<lambda>c. c \<noteq> CHR ''$'') t @ group_text name m @ r))))"
  by (subst expand.simps) (simp only: assms list.case Let_def)

lemma expand_prefix:
  assumes "CHR ''$'' \<notin> set a"
  shows "expand (a @ t) m = (case expand t m of None \<Rightarrow> None | Some r \<Rightarrow> Some (a @ r))"
proof -
  let ?P = "\<lambda>c. c \<noteq> CHR ''$''"
  have a: "\<And>c. c \<in> set a \<Longrightarrow> c \<noteq> CHR ''$''" using assms by auto
  have d: "dropWhile ?P (a @ t) = dropWhile ?P t"
    using a by (simp add: dropWhile_append2)
  have tk: "takeWhile ?P (a @ t) = a @ takeWhile ?P t"
    using a by (simp add: takeWhile_append2)
  show ?thesis
  proof (cases "dropWhile ?P t")
    case Nil
    then have "\<forall>c\<in>set t. c \<noteq> CHR ''$''" by (simp only: dropWhile_eq_Nil_conv)
    then have "CHR ''$'' \<notin> set t" by auto
    then have "expand t m = Some t" and "expand (a @ t) m = Some (a @ t)"
      using assms by (simp_all add: expand_no_dollar)
    then show ?thesis by simp
  next
    case (Cons c after)
    note 1 = expand_at_dollar [OF Cons, of m]
    note 2 = expand_at_dollar [OF d [unfolded Cons], of m, unfolded tk]
    show ?thesis
    proof (cases "after \<noteq> [] \<and> hd after = CHR ''$''")
      case True
      show ?thesis
        unfolding 1 2 if_P [OF True] by (cases "expand (tl after) m") simp_all
    next
      case False
      show ?thesis
      proof (cases "extract_name after")
        case Malformed
        then show ?thesis
          unfolding 1 2 if_not_P [OF False] by (cases "expand after m") simp_all
      next
        case Beyond
        then show ?thesis unfolding 1 2 if_not_P [OF False] by simp
      next
        case (Named name rest)
        then show ?thesis
          unfolding 1 2 if_not_P [OF False] by (cases "expand rest m") simp_all
      qed
    qed
  qed
qed

lemma not_name_byte_bell: "\<not> name_byte (CHR 0x07)"
  by (simp add: name_byte_def alnum_def byte_def)

text \<open>The name behind a dollar sign ends at the bell byte at the latest: what follows
  that byte plays no part in it.\<close>

lemma extract_name_bell:
  "\<exists>z. length z \<le> length y \<and>
     (extract_name (y @ [CHR 0x07]) = Malformed \<and> extract_name (y @ CHR 0x07 # t) = Malformed
      \<or> extract_name (y @ [CHR 0x07]) = Beyond \<and> extract_name (y @ CHR 0x07 # t) = Beyond
      \<or> (\<exists>n. extract_name (y @ [CHR 0x07]) = Named n (z @ [CHR 0x07])
              \<and> extract_name (y @ CHR 0x07 # t) = Named n (z @ CHR 0x07 # t)))"
proof -
  define brace where "brace = (hd (y @ [CHR 0x07]) = CHR ''{'')"
  define y1 where "y1 = (if brace then tl y else y)"
  define z where "z = dropWhile name_byte y1"
  define name where "name = takeWhile name_byte y1"
  have ynb: "brace \<Longrightarrow> y \<noteq> []" by (auto simp: brace_def)
  have h: "hd (y @ CHR 0x07 # t) = hd (y @ [CHR 0x07])" by (cases y) simp_all
  have s1: "(if brace then tl (y @ CHR 0x07 # t) else y @ CHR 0x07 # t) = y1 @ CHR 0x07 # t"
    using ynb by (auto simp: y1_def)
  have s2: "(if brace then tl (y @ [CHR 0x07]) else y @ [CHR 0x07]) = y1 @ [CHR 0x07]"
    using ynb by (auto simp: y1_def)
  have t1: "takeWhile name_byte (y1 @ CHR 0x07 # t) = name"
    "takeWhile name_byte (y1 @ [CHR 0x07]) = name"
    using not_name_byte_bell by (simp_all add: name_def takeWhile_tail)
  have d1: "dropWhile name_byte (y1 @ CHR 0x07 # t) = z @ CHR 0x07 # t"
    "dropWhile name_byte (y1 @ [CHR 0x07]) = z @ [CHR 0x07]"
    using not_name_byte_bell by (simp_all add: z_def dropWhile_append3)
  have e1: "extract_name (y @ CHR 0x07 # t) =
     (if 0x80 \<le> byte (hd (z @ CHR 0x07 # t)) then Beyond
      else if name = [] then Malformed
      else if brace then
        (if hd (z @ CHR 0x07 # t) \<noteq> CHR ''}'' then Malformed
         else Named name (tl (z @ CHR 0x07 # t)))
      else Named name (z @ CHR 0x07 # t))"
    unfolding extract_name_def Let_def h brace_def [symmetric] s1 t1 d1 by simp
  have e2: "extract_name (y @ [CHR 0x07]) =
     (if 0x80 \<le> byte (hd (z @ [CHR 0x07])) then Beyond
      else if name = [] then Malformed
      else if brace then
        (if hd (z @ [CHR 0x07]) \<noteq> CHR ''}'' then Malformed
         else Named name (tl (z @ [CHR 0x07])))
      else Named name (z @ [CHR 0x07]))"
    unfolding extract_name_def Let_def brace_def [symmetric] s2 t1 d1 by simp
  have hz: "hd (z @ CHR 0x07 # t) = hd (z @ [CHR 0x07])" by (cases z) simp_all
  have lz: "length z \<le> length y"
  proof -
    have "length z \<le> length y1" unfolding z_def by (rule length_dropWhile_le)
    also have "\<dots> \<le> length y" by (simp add: y1_def)
    finally show ?thesis .
  qed
  show ?thesis
  proof (cases "brace \<and> hd (z @ [CHR 0x07]) = CHR ''}''")
    case True
    then have zne: "z \<noteq> []" by (cases z) auto
    then have tl1: "tl (z @ CHR 0x07 # t) = tl z @ CHR 0x07 # t"
      and tl2: "tl (z @ [CHR 0x07]) = tl z @ [CHR 0x07]" by simp_all
    have "length (tl z) \<le> length y" using lz by simp
    then show ?thesis
      unfolding e1 e2 hz tl1 tl2 using True
      by (intro exI [of _ "tl z"]) auto
  next
    case False
    then show ?thesis
      unfolding e1 e2 hz using lz
      by (intro exI [of _ z]) auto
  qed
qed

text \<open>The expansion of a template up to a bell byte does not depend on what follows that
  byte, and ends with it.\<close>

lemma expand_bell:
  "(expand (y @ [CHR 0x07]) m = None \<and> expand (y @ CHR 0x07 # t) m = None)
   \<or> (\<exists>y'. expand (y @ [CHR 0x07]) m = Some (y' @ [CHR 0x07])
           \<and> expand (y @ CHR 0x07 # t) m =
               (case expand t m of None \<Rightarrow> None | Some r \<Rightarrow> Some (y' @ CHR 0x07 # r)))"
  (is "?P y")
proof (induction y rule: length_induct)
  case (1 y)
  let ?D = "\<lambda>c. c \<noteq> CHR ''$''"
  have pre: "?P (a @ w)" if a: "CHR ''$'' \<notin> set a" and w: "?P w" for a w
  proof -
    have s: "expand ((a @ w) @ [CHR 0x07]) m =
               (case expand (w @ [CHR 0x07]) m of None \<Rightarrow> None | Some r \<Rightarrow> Some (a @ r))"
      using expand_prefix [OF a, of "w @ [CHR 0x07]" m] by simp
    have l: "expand ((a @ w) @ CHR 0x07 # t) m =
               (case expand (w @ CHR 0x07 # t) m of None \<Rightarrow> None | Some r \<Rightarrow> Some (a @ r))"
      using expand_prefix [OF a, of "w @ CHR 0x07 # t" m] by simp
    from w show ?thesis
    proof
      assume "expand (w @ [CHR 0x07]) m = None \<and> expand (w @ CHR 0x07 # t) m = None"
      then show ?thesis unfolding s l by simp
    next
      assume "\<exists>y'. expand (w @ [CHR 0x07]) m = Some (y' @ [CHR 0x07])
           \<and> expand (w @ CHR 0x07 # t) m =
               (case expand t m of None \<Rightarrow> None | Some r \<Rightarrow> Some (y' @ CHR 0x07 # r))"
      then obtain y' where 1: "expand (w @ [CHR 0x07]) m = Some (y' @ [CHR 0x07])"
        and 2: "expand (w @ CHR 0x07 # t) m =
               (case expand t m of None \<Rightarrow> None | Some r \<Rightarrow> Some (y' @ CHR 0x07 # r))"
        by blast
      have "expand ((a @ w) @ [CHR 0x07]) m = Some ((a @ y') @ [CHR 0x07])"
        unfolding s 1 by simp
      moreover have "expand ((a @ w) @ CHR 0x07 # t) m =
               (case expand t m of None \<Rightarrow> None | Some r \<Rightarrow> Some ((a @ y') @ CHR 0x07 # r))"
        unfolding l 2 by (cases "expand t m") simp_all
      ultimately show ?thesis by blast
    qed
  qed
  show ?case
  proof (cases "CHR ''$'' \<in> set y")
    case False
    have "?P ([] :: string)"
    proof -
      have "expand [CHR 0x07] m = Some [CHR 0x07]" by (rule expand_no_dollar) simp
      moreover have "expand (CHR 0x07 # t) m =
              (case expand t m of None \<Rightarrow> None | Some r \<Rightarrow> Some (CHR 0x07 # r))"
        using expand_prefix [of "[CHR 0x07]" t m] by (cases "expand t m") simp_all
      ultimately have "expand ([] @ [CHR 0x07]) m = Some ([] @ [CHR 0x07])
          \<and> expand ([] @ CHR 0x07 # t) m =
               (case expand t m of None \<Rightarrow> None | Some r \<Rightarrow> Some ([] @ CHR 0x07 # r))"
        by (cases "expand t m") simp_all
      then show ?thesis by blast
    qed
    from pre [OF False this] show ?thesis by simp
  next
    case True
    then obtain a w where y: "y = a @ CHR ''$'' # w" and a: "CHR ''$'' \<notin> set a"
      by (auto dest: split_list_first)
    have ih: "?P v" if "length v \<le> length w" for v
      using "1.IH" that y by simp
    text \<open>A step at the dollar sign: the rest of the template is \<open>after\<close> with or without
      what follows the bell byte.\<close>
    have step: "?P (CHR ''$'' # w)"
      if c: "?P v" and
         s: "expand (CHR ''$'' # w @ [CHR 0x07]) m =
               (case expand (v @ [CHR 0x07]) m of None \<Rightarrow> None | Some r \<Rightarrow> Some (g @ r))" and
         l: "expand (CHR ''$'' # w @ CHR 0x07 # t) m =
               (case expand (v @ CHR 0x07 # t) m of None \<Rightarrow> None | Some r \<Rightarrow> Some (g @ r))"
      for v g
    proof -
      from c show ?thesis
      proof
        assume "expand (v @ [CHR 0x07]) m = None \<and> expand (v @ CHR 0x07 # t) m = None"
        then show ?thesis using s l by simp
      next
        assume "\<exists>y'. expand (v @ [CHR 0x07]) m = Some (y' @ [CHR 0x07])
           \<and> expand (v @ CHR 0x07 # t) m =
               (case expand t m of None \<Rightarrow> None | Some r \<Rightarrow> Some (y' @ CHR 0x07 # r))"
        then obtain y' where 1: "expand (v @ [CHR 0x07]) m = Some (y' @ [CHR 0x07])"
          and 2: "expand (v @ CHR 0x07 # t) m =
               (case expand t m of None \<Rightarrow> None | Some r \<Rightarrow> Some (y' @ CHR 0x07 # r))"
          by blast
        have "expand ((CHR ''$'' # w) @ [CHR 0x07]) m = Some ((g @ y') @ [CHR 0x07])"
          using s 1 by simp
        moreover have "expand ((CHR ''$'' # w) @ CHR 0x07 # t) m =
               (case expand t m of None \<Rightarrow> None | Some r \<Rightarrow> Some ((g @ y') @ CHR 0x07 # r))"
          using l 2 by (cases "expand t m") simp_all
        ultimately show ?thesis by blast
      qed
    qed
    have ds: "dropWhile ?D (CHR ''$'' # w @ [CHR 0x07]) = CHR ''$'' # (w @ [CHR 0x07])"
      and dl: "dropWhile ?D (CHR ''$'' # w @ CHR 0x07 # t) = CHR ''$'' # (w @ CHR 0x07 # t)"
      by simp_all
    note us = expand_at_dollar [OF ds, of m]
    note ul = expand_at_dollar [OF dl, of m]
    have tk: "takeWhile ?D (CHR ''$'' # w @ [CHR 0x07]) = []"
      "takeWhile ?D (CHR ''$'' # w @ CHR 0x07 # t) = []" by simp_all
    have dollar: "?P (CHR ''$'' # w)"
    proof (cases "w \<noteq> [] \<and> hd w = CHR ''$''")
      case True
      then obtain w' where w: "w = CHR ''$'' # w'" by (cases w) auto
      have cs: "w @ [CHR 0x07] \<noteq> [] \<and> hd (w @ [CHR 0x07]) = CHR ''$''" using w by simp
      have cl: "w @ CHR 0x07 # t \<noteq> [] \<and> hd (w @ CHR 0x07 # t) = CHR ''$''" using w by simp
      have "length w' \<le> length w" using w by simp
      then have c: "?P w'" by (rule ih)
      have s: "expand (CHR ''$'' # w @ [CHR 0x07]) m =
                 (case expand (w' @ [CHR 0x07]) m of None \<Rightarrow> None | Some r \<Rightarrow> Some (''$'' @ r))"
        unfolding us if_P [OF cs] tk using w by (simp cong: option.case_cong)
      have l: "expand (CHR ''$'' # w @ CHR 0x07 # t) m =
                 (case expand (w' @ CHR 0x07 # t) m of None \<Rightarrow> None | Some r \<Rightarrow> Some (''$'' @ r))"
        unfolding ul if_P [OF cl] tk using w by (simp cong: option.case_cong)
      from step [OF c s l] show ?thesis .
    next
      case False
      then have cs: "\<not> (w @ [CHR 0x07] \<noteq> [] \<and> hd (w @ [CHR 0x07]) = CHR ''$'')"
        and cl: "\<not> (w @ CHR 0x07 # t \<noteq> [] \<and> hd (w @ CHR 0x07 # t) = CHR ''$'')"
        by (cases w; simp)+
      from extract_name_bell [of w t] obtain z where z: "length z \<le> length w"
        and alt: "extract_name (w @ [CHR 0x07]) = Malformed
                    \<and> extract_name (w @ CHR 0x07 # t) = Malformed
                  \<or> extract_name (w @ [CHR 0x07]) = Beyond
                    \<and> extract_name (w @ CHR 0x07 # t) = Beyond
                  \<or> (\<exists>n. extract_name (w @ [CHR 0x07]) = Named n (z @ [CHR 0x07])
                        \<and> extract_name (w @ CHR 0x07 # t) = Named n (z @ CHR 0x07 # t))"
        by blast
      from alt show ?thesis
      proof (elim disjE conjE exE)
        assume e: "extract_name (w @ [CHR 0x07]) = Malformed"
          "extract_name (w @ CHR 0x07 # t) = Malformed"
        have c: "?P w" by (rule ih) simp
        have s: "expand (CHR ''$'' # w @ [CHR 0x07]) m =
                   (case expand (w @ [CHR 0x07]) m of None \<Rightarrow> None | Some r \<Rightarrow> Some (''$'' @ r))"
          unfolding us if_not_P [OF cs] tk e by (simp cong: option.case_cong)
        have l: "expand (CHR ''$'' # w @ CHR 0x07 # t) m =
                   (case expand (w @ CHR 0x07 # t) m of None \<Rightarrow> None | Some r \<Rightarrow> Some (''$'' @ r))"
          unfolding ul if_not_P [OF cl] tk e by (simp cong: option.case_cong)
        from step [OF c s l] show ?thesis .
      next
        assume e: "extract_name (w @ [CHR 0x07]) = Beyond"
          "extract_name (w @ CHR 0x07 # t) = Beyond"
        show ?thesis
          using us ul unfolding if_not_P [OF cs] if_not_P [OF cl] e by simp
      next
        fix n
        assume e: "extract_name (w @ [CHR 0x07]) = Named n (z @ [CHR 0x07])"
          "extract_name (w @ CHR 0x07 # t) = Named n (z @ CHR 0x07 # t)"
        have c: "?P z" using z by (rule ih)
        have s: "expand (CHR ''$'' # w @ [CHR 0x07]) m =
                   (case expand (z @ [CHR 0x07]) m of
                      None \<Rightarrow> None
                    | Some r \<Rightarrow> Some (group_text n m @ r))"
          unfolding us if_not_P [OF cs] tk e by (simp cong: option.case_cong)
        have l: "expand (CHR ''$'' # w @ CHR 0x07 # t) m =
                   (case expand (z @ CHR 0x07 # t) m of
                      None \<Rightarrow> None
                    | Some r \<Rightarrow> Some (group_text n m @ r))"
          unfolding ul if_not_P [OF cl] tk e by (simp cong: option.case_cong)
        from step [OF c s l] show ?thesis .
      qed
    qed
    from pre [OF a dollar] show ?thesis unfolding y by simp
  qed
qed

lemma enhance_hyperlink: "enhance kind m ident = hyperlink (deeplink kind ident) m"
  by (simp add: enhance_def hyperlink_def deeplink_def OSC_def BEL_def SEP_def)


lemma expand_group_one_end:
  "expand (''$1'' @ OSC @ ''8;;'' @ BEL) m = Some (m @ OSC @ ''8;;'' @ BEL)"
proof -
  have "expand ([] @ ''$1'' @ (OSC @ ''8;;'' @ BEL)) m = Some ([] @ m @ (OSC @ ''8;;'' @ BEL))"
    by (rule expand_group_one) (simp_all add: OSC_def BEL_def name_byte_def alnum_def byte_def)
  then show ?thesis by simp
qed

text \<open>Whatever the identifier is, what the template of a decoration expands to is a
  hyperlink around the text of the match.\<close>

lemma expand_enhance_any:
  assumes "CHR ''$'' \<notin> set kind"
  shows "expand (enhance kind ''$1'' ident) m = None
       \<or> (\<exists>ident'. expand (enhance kind ''$1'' ident) m = Some (hyperlink (deeplink kind ident') m))"
proof -
  let ?p = "OSC @ ''8;;docker-desktop://dashboard/'' @ kind @ ''?id=''"
  let ?t = "''$1'' @ OSC @ ''8;;'' @ BEL"
  have e: "enhance kind ''$1'' ident = ?p @ (ident @ CHR 0x07 # ?t)"
    by (simp add: enhance_def OSC_def BEL_def SEP_def)
  have p: "CHR ''$'' \<notin> set ?p" using assms by (simp add: OSC_def)
  have x: "expand (enhance kind ''$1'' ident) m =
             (case expand (ident @ CHR 0x07 # ?t) m of None \<Rightarrow> None | Some r \<Rightarrow> Some (?p @ r))"
    unfolding e by (rule expand_prefix [OF p])
  from expand_bell [of ident m ?t] show ?thesis
  proof (elim disjE conjE exE)
    assume "expand (ident @ CHR 0x07 # ?t) m = None"
    then show ?thesis unfolding x by simp
  next
    fix y'
    assume "expand (ident @ CHR 0x07 # ?t) m =
              (case expand ?t m of None \<Rightarrow> None | Some r \<Rightarrow> Some (y' @ CHR 0x07 # r))"
    then have "expand (ident @ CHR 0x07 # ?t) m = Some (y' @ CHR 0x07 # m @ OSC @ ''8;;'' @ BEL)"
      by (simp only: expand_group_one_end option.case)
    then have "expand (enhance kind ''$1'' ident) m
                 = Some (?p @ y' @ CHR 0x07 # m @ OSC @ ''8;;'' @ BEL)"
      unfolding x by simp
    also have "?p @ y' @ CHR 0x07 # m @ OSC @ ''8;;'' @ BEL = hyperlink (deeplink kind y') m"
      by (simp add: hyperlink_def deeplink_def OSC_def BEL_def)
    finally show ?thesis by blast
  qed
qed

lemma expand_enhance_hyperlink:
  assumes "CHR ''$'' \<notin> set kind" and "CHR ''$'' \<notin> set ident"
  shows "expand (enhance kind ''$1'' ident) m = Some (hyperlink (deeplink kind ident) m)"
  using expand_enhance [OF assms] by (simp add: enhance_hyperlink)

subsection \<open>A whole replacement\<close>

lemma ReplaceAllString_replace_matches:
  assumes "compile pattern = Some (lits x @ is)" and "plain x" and "x \<noteq> []"
    and "CHR ''$'' \<notin> set kind" and "CHR ''$'' \<notin> set ident"
  shows "ReplaceAllString pattern src (enhance kind ''$1'' ident)
           = Inr (replace_matches (lits x @ is) (hyperlink (deeplink kind ident)) src)"
proof -
  have "replaceAll (lits x @ is) src (enhance kind ''$1'' ident) 0 0 []
          = Some ([] @ replace_matches (lits x @ is) (hyperlink (deeplink kind ident)) (drop 0 src))"
    by (rule replaceAll_replace_matches [OF assms(2,3)])
       (simp_all add: expand_enhance_hyperlink [OF assms(4,5)])
  then show ?thesis using assms(1) by (simp add: ReplaceAllString_def)
qed




section \<open>Rewriting a line\<close>

subsection \<open>Records that do not occur in the line\<close>

lemma rewrite_each_unchanged:
  "\<forall>x\<in>set xs. f x line = Inr line \<Longrightarrow> rewrite_each f xs line = Inr line"
  by (induction xs) simp_all

lemma rewrite_container_absent:
  assumes "plain (ShortId c)" and "plain (Names c)"
    and "\<not> Contains line (ShortId c)" and "\<not> Contains line (Names c)"
  shows "rewrite_container c line = Inr line"
  unfolding rewrite_container_def
  by (simp only: ReplaceAllString_identifier_absent [OF assms(1,3)]
        ReplaceAllString_literal_absent [OF assms(2,4)] sum.case)

lemma rewrite_volume_absent:
  assumes "plain (Name v)" and "\<not> Contains line (Name v)"
  shows "rewrite_volume v line = Inr line"
  unfolding rewrite_volume_def
  by (rule ReplaceAllString_literal_absent [OF assms])

lemma rewrite_image_absent:
  "\<not> Contains line (Respository img) \<Longrightarrow> rewrite_image img line = Inr line"
  by (simp add: rewrite_image_def)

lemma rewrite_line_absent:
  assumes "list_all plain_container cs" and "list_all (\<lambda>v. plain (Name v)) vs"
    and "\<not> list_ex (names_container line) cs"
    and "\<not> list_ex (\<lambda>v. Contains line (Name v)) vs"
    and "\<not> list_ex (\<lambda>i. Contains line (Respository i)) is"
  shows "rewrite_line cs vs is line = Inr line"
proof -
  have 1: "rewrite_each rewrite_container cs line = Inr line"
    using assms(1,3)
    by (intro rewrite_each_unchanged ballI rewrite_container_absent)
       (auto simp: list_all_iff list_ex_iff plain_container_def names_container_def)
  have 2: "rewrite_each rewrite_volume vs line = Inr line"
    using assms(2,4)
    by (intro rewrite_each_unchanged ballI rewrite_volume_absent)
       (auto simp: list_all_iff list_ex_iff)
  have 3: "rewrite_each rewrite_image is line = Inr line"
    using assms(5)
    by (intro rewrite_each_unchanged ballI rewrite_image_absent)
       (auto simp: list_ex_iff)
  show ?thesis by (simp add: rewrite_line_def 1 2 3)
qed



subsection \<open>Short identifiers of containers\<close>

text \<open>A later rewrite whose patterns are clear of a hyperlink leaves the hyperlink in the
  line.\<close>

lemma plain_no_dollar: "plain x \<Longrightarrow> CHR ''$'' \<notin> set x"
  by (auto simp: plain_def is_plain_def list_all_iff)

lemma compile_literal': "plain x \<Longrightarrow> compile (''('' @ x @ '')'') = Some (lits x @ [])"
  using compile_literal [of x] by simp








subsection \<open>Names with a dot\<close>

text \<open>
  Claim C7 at a failing input. The catalog holds one volume, named \<^verbatim>\<open>a.c\<close>; the line
  \<^verbatim>\<open>abc\<close> does not contain that name. The name goes into the pattern as it is, its dot
  matches any character, and the line written is the decoration around \<^verbatim>\<open>abc\<close>, not
  the line read. (For a catalog of plain names the claim holds: lemma
  \<open>rewrite_line_absent\<close>.)
\<close>

theorem dotted_volume_rewrites_other_text:
  "\<not> Contains ''abc'' (Name dotted_volume)
   \<and> rewrite_line [] [dotted_volume] [] ''abc'' = Inr (enhance ''volumes'' ''abc'' ''a.c'')"
  by code_simp

subsection \<open>Repositories of images\<close>

lemma repository_step:
  assumes "plain x" and "x \<noteq> []" and "CHR ''$'' \<notin> set ident"
    and "\<not> Contains (pre @ butlast x) x"
  shows "\<exists>rest. ReplaceAllString (''('' @ x @ '')'') (pre @ x @ post)
                  (enhance ''images'' ''$1'' ident)
           = Inr (pre @ enhance ''images'' x ident @ rest)"
proof -
  have k: "CHR ''$'' \<notin> set ''images''" by simp
  have c: "compile (''('' @ x @ '')'') = Some (lits x @ [])"
    using compile_literal [OF assms(1)] by simp
  have m: "match_here [] post = Some 0" by (simp add: match_here.simps)
  show ?thesis
    using ReplaceAllString_first [OF c assms(1,2,4) m k assms(3)] by simp
qed

lemma repository_decorated:
  assumes "plain (Respository img)" and "Respository img \<noteq> []"
    and "CHR ''$'' \<notin> set (img_ID img)" and "CHR ''$'' \<notin> set (Tag img)"
    and "\<not> Contains (pre @ butlast (Respository img)) (Respository img)"
  shows "\<exists>rest. rewrite_image img (pre @ Respository img @ post)
           = Inr (pre @ enhance ''images'' (Respository img)
                    (img_ID img @ ''-'' @
                       (if Contains (pre @ Respository img @ post) (Tag img) then Tag img
                        else ''latest''))
                  @ rest)"
proof -
  have c: "Contains (pre @ Respository img @ post) (Respository img)"
    by (rule Contains_append)
  have 1: "CHR ''$'' \<notin> set (img_ID img @ ''-'' @ Tag img)" using assms(3,4) by simp
  have 2: "CHR ''$'' \<notin> set (img_ID img @ ''-latest'')" using assms(3) by simp
  show ?thesis
  proof (cases "Contains (pre @ Respository img @ post) (Tag img)")
    case True
    with c repository_step [OF assms(1,2) 1 assms(5), of post] show ?thesis
      unfolding rewrite_image_def by (simp only: if_True)
  next
    case False
    with c repository_step [OF assms(1,2) 2 assms(5), of post] show ?thesis
      unfolding rewrite_image_def by (simp only: if_True if_False) simp
  qed
qed

text \<open>
  Claim C5 at a failing input. The image has the repository \<^verbatim>\<open>a.a\<close> and the tag
  \<^verbatim>\<open>v1\<close>; the line \<^verbatim>\<open>aXa.a v1\<close> contains both. The repository goes into the pattern
  as it is, its dot matches \<^verbatim>\<open>X\<close>, and the decoration is written around \<^verbatim>\<open>aXa\<close>:
  the repository in the line is cut in two and not decorated. (For a plain repository,
  and an identifier and a tag without a dollar sign, the claim holds: lemmas
  \<open>repository_decorated\<close> and \<open>rewrite_image_absent\<close>.)
\<close>

theorem dotted_repository_left_bare:
  "Contains ''aXa.a v1'' (Respository dotted_image) \<and> Contains ''aXa.a v1'' (Tag dotted_image)
   \<and> rewrite_image dotted_image ''aXa.a v1''
       = Inr (enhance ''images'' ''aXa'' (img_ID dotted_image @ ''-v1'') @ ''.a v1'')"
  by code_simp

section \<open>Returning from \<^verbatim>\<open>RunDocker\<close>\<close>

subsection \<open>Invariants of the runs\<close>

lemma alive_simps [simp]:
  "alive (s\<lparr>main := m\<rparr>) = alive s"
  "alive (s\<lparr>child := c\<rparr>) = alive s"
  "alive (s\<lparr>pipe := p\<rparr>) = alive s"
  "alive (s\<lparr>write_end_open := b\<rparr>) = alive s"
  "alive (s\<lparr>catalog_now := k\<rparr>) = alive s"
  "alive (s\<lparr>written := out\<rparr>) = alive s"
  by (simp_all add: alive_def)

lemma alive_initial [simp]: "alive (initial call)"
  by (simp add: alive_def initial_def)

text \<open>The write end is open exactly as long as the main flow has not closed it; the
  scanner has finished exactly when the main flow has received from \<open>done\<close>.\<close>

lemma handshake_invariant:
  "reachable call s \<Longrightarrow>
     write_end_open s = main_before_close (main s)
     \<and> (scanner s = Scanner_finished) = (main s = Returned None)"
proof (induction rule: reachable.induct)
  case at_start
  show ?case by (simp add: initial_def main_before_close_def)
next
  case (after_step s s')
  from after_step.hyps(2) after_step.IH show ?case
    by (cases rule: moves.cases) (auto simp: main_before_close_def)
qed

lemma error_return_leaves_pipe_open:
  assumes "reachable call s" and "main s = Returned (Some e)"
  shows "write_end_open s \<and> scanner s \<noteq> Scanner_finished"
  using handshake_invariant [OF assms(1)] assms(2)
  by (simp add: main_before_close_def)

lemma error_is_of_child:
  "reachable call s \<Longrightarrow> main s = Returned (Some e) \<Longrightarrow>
     (e = Start_error \<and> \<not> child_starts call)
     \<or> (e = Exit_error (child_status call) \<and> child_status call \<noteq> 0)"
proof (induction rule: reachable.induct)
  case at_start
  then show ?case by (simp add: initial_def)
next
  case (after_step s s')
  from after_step.hyps(2) after_step.IH after_step.prems show ?case
    by (cases rule: moves.cases) auto
qed

lemma child_writes_some:
  "reachable call s \<Longrightarrow> alive s \<Longrightarrow> child s = Child_running (xs @ ys) \<Longrightarrow>
     reachable call (s\<lparr>child := Child_running ys, pipe := pipe s @ xs\<rparr>)"
proof (induction xs arbitrary: s)
  case Nil
  have e: "s\<lparr>child := Child_running ys, pipe := pipe s @ []\<rparr> = s"
    using Nil.prems(3) by (cases s) simp
  show ?case by (subst e) (rule Nil.prems(1))
next
  case (Cons x xs)
  let ?s1 = "s\<lparr>child := Child_running (xs @ ys), pipe := pipe s @ [x]\<rparr>"
  have "moves call s ?s1"
    using Cons.prems by (intro moves.child_writes) simp_all
  with Cons.prems(1) have "reachable call ?s1" by (rule reachable.after_step)
  from Cons.IH [OF this] Cons.prems(2) show ?case by simp
qed

lemma error_return_before_any_line:
  assumes "child_starts call" and "child_status call \<noteq> 0"
  shows "reachable call
           \<lparr>child = Child_exited, pipe = child_lines call, write_end_open = True,
            catalog_now = loaded call, scanner = Scanning,
            main = Returned (Some (Exit_error (child_status call))), written = []\<rparr>"
proof -
  let ?s1 = "(initial call)\<lparr>child := Child_running (child_lines call)\<rparr>"
  have "moves call (initial call) ?s1"
    using assms(1) by (intro moves.start) (simp_all add: initial_def alive_def)
  with reachable.at_start have r1: "reachable call ?s1" by (rule reachable.after_step)
  let ?s2 = "?s1\<lparr>child := Child_running [], pipe := pipe ?s1 @ child_lines call\<rparr>"
  have r2: "reachable call ?s2"
    using child_writes_some [OF r1, of "child_lines call" "[]"] by (simp add: initial_def alive_def)
  let ?s3 = "?s2\<lparr>child := Child_exited\<rparr>"
  have "moves call ?s2 ?s3" by (intro moves.child_exits) (simp_all add: initial_def alive_def)
  with r2 have r3: "reachable call ?s3" by (rule reachable.after_step)
  let ?s4 = "?s3\<lparr>main := Returned (Some (Exit_error (child_status call)))\<rparr>"
  have "moves call ?s3 ?s4"
    using assms(2) by (intro moves.run_returns_error) (simp_all add: initial_def alive_def)
  with r3 have "reachable call ?s4" by (rule reachable.after_step)
  then show ?thesis by (simp add: initial_def)
qed

lemma scan_all_snoc:
  "scan_all w args cat (ls @ [l]) =
     (case scan_all w args cat ls of
        Inl e \<Rightarrow> Inl e
      | Inr (cat', out) \<Rightarrow>
          (case scan_line w args cat' (dropCR l) of
             Inl e \<Rightarrow> Inl e
           | Inr (cat'', l') \<Rightarrow> Inr (cat'', out @ [l'])))"
  by (induction ls arbitrary: cat) (auto split: sum.splits)

lemma scan_all_length:
  "scan_all w args cat ls = Inr (cat', out) \<Longrightarrow> length out = length ls"
  by (induction ls arbitrary: cat cat' out) (auto split: sum.splits)

lemma child_exited_after_run:
  "reachable call s \<Longrightarrow>
     (main_after_run (main s) \<longrightarrow> child s = Child_exited \<and> child_status call = 0)"
proof (induction rule: reachable.induct)
  case at_start
  show ?case by (simp add: initial_def main_after_run_def)
next
  case (after_step s s')
  from after_step.hyps(2) after_step.IH show ?case
    by (cases rule: moves.cases) (auto simp: main_after_run_def)
qed

lemma drain_invariant:
  assumes short: "\<forall>l\<in>set (child_lines call). length l < MaxScanTokenSize"
  shows "reachable call s \<Longrightarrow>
     (\<exists>consumed. accounted call s consumed)
     \<and> (scanner s = Sending_done \<or> scanner s = Scanner_finished \<longrightarrow>
          pipe s = [] \<and> child s = Child_exited)"
proof (induction rule: reachable.induct)
  case at_start
  have "accounted call (initial call) []"
    by (simp add: accounted_def total_lines_def to_write_def initial_def)
  then show ?case by (auto simp: initial_def)
next
  case (after_step s s')
  from after_step.IH obtain consumed where acc: "accounted call s consumed" by auto
  from after_step.IH have fin: "scanner s = Sending_done \<or> scanner s = Scanner_finished \<longrightarrow>
          pipe s = [] \<and> child s = Child_exited" by simp
  note hs = handshake_invariant [OF after_step.hyps(1)]
  note ce = child_exited_after_run [OF after_step.hyps(1)]
  from after_step.hyps(2) show ?case
  proof (cases rule: moves.cases)
    case start_fails
    with acc have "accounted call s' consumed"
      by (simp add: accounted_def to_write_def)
    with start_fails fin show ?thesis by auto
  next
    case start
    with acc have "accounted call s' consumed"
      by (simp add: accounted_def to_write_def)
    with start fin show ?thesis by auto
  next
    case (child_writes l ls)
    with acc have "accounted call s' consumed"
      by (simp add: accounted_def to_write_def)
    with child_writes fin show ?thesis by auto
  next
    case child_exits
    with acc have "accounted call s' consumed"
      by (simp add: accounted_def to_write_def)
    with child_exits fin show ?thesis by auto
  next
    case run_returns_nil
    with acc have "accounted call s' consumed"
      by (simp add: accounted_def to_write_def)
    with run_returns_nil fin show ?thesis by auto
  next
    case run_returns_error
    with acc have "accounted call s' consumed"
      by (simp add: accounted_def to_write_def)
    with run_returns_error fin show ?thesis by auto
  next
    case close_write_end
    with acc have "accounted call s' consumed"
      by (simp add: accounted_def to_write_def)
    with close_write_end fin show ?thesis by auto
  next
    case (scan_writes l ls cat' line')
    with acc have "accounted call s' (consumed @ [l])"
      by (simp add: accounted_def to_write_def scan_all_snoc)
    with scan_writes show ?thesis by auto
  next
    case (scan_panics l ls e)
    with acc have "accounted call s' (consumed @ [l])"
      by (simp add: accounted_def to_write_def alive_def)
    with scan_panics show ?thesis by auto
  next
    case (scan_too_long l ls)
    from acc scan_too_long have "l \<in> set (total_lines call)"
      by (simp add: accounted_def)
    then have "l \<in> set (child_lines call)"
      by (simp add: total_lines_def split: if_splits)
    with short scan_too_long show ?thesis by auto
  next
    case scan_end_of_stream
    with acc have a: "accounted call s' consumed"
      by (simp add: accounted_def to_write_def alive_def)
    from scan_end_of_stream hs have "main_after_run (main s)"
      by (cases "main s") (auto simp: main_before_close_def main_after_run_def)
    with ce have "child s = Child_exited" by simp
    with a scan_end_of_stream show ?thesis by auto
  next
    case done_handed_over
    with acc have "accounted call s' consumed"
      by (simp add: accounted_def to_write_def alive_def)
    with done_handed_over fin show ?thesis by auto
  qed
qed

lemma drained_on_success:
  assumes "reachable call s" and "main s = Returned None"
    and "\<forall>l\<in>set (child_lines call). length l < MaxScanTokenSize"
  shows "child_status call = 0
       \<and> (\<exists>cat. scan_all (the_world call) (the_args call) (loaded call) (child_lines call)
                   = Inr (cat, written s))
       \<and> length (written s) = length (child_lines call)"
proof -
  from drain_invariant [OF assms(3) assms(1)] obtain consumed where
    acc: "accounted call s consumed"
    and fin: "scanner s = Sending_done \<or> scanner s = Scanner_finished \<longrightarrow>
          pipe s = [] \<and> child s = Child_exited" by auto
  from handshake_invariant [OF assms(1)] assms(2) have sf: "scanner s = Scanner_finished"
    by simp
  with fin have p: "pipe s = []" and c: "child s = Child_exited" by simp_all
  from child_exited_after_run [OF assms(1)] assms(2) have st: "child_status call = 0"
    by (simp add: main_after_run_def)
  have starts: "child_starts call"
  proof (rule ccontr)
    assume n: "\<not> child_starts call"
    have "reachable call s \<Longrightarrow> child s = Child_not_started"
    proof (induction rule: reachable.induct)
      case at_start
      show ?case by (simp add: initial_def)
    next
      case (after_step s s')
      from after_step.hyps(2) after_step.IH n show ?case
        by (cases rule: moves.cases) auto
    qed
    with assms(1) c show False by simp
  qed
  from acc p c starts have "consumed = child_lines call"
    by (simp add: accounted_def to_write_def total_lines_def)
  moreover have "alive s" using sf by (simp add: alive_def)
  ultimately have sa: "scan_all (the_world call) (the_args call) (loaded call) (child_lines call)
                   = Inr (catalog_now s, written s)"
    using acc by (simp add: accounted_def)
  from scan_all_length [OF sa] st sa show ?thesis by auto
qed

lemma start_failure_returns:
  assumes "\<not> child_starts call"
  shows "reachable call ((initial call)\<lparr>main := Returned (Some Start_error)\<rparr>)"
proof -
  have "moves call (initial call) ((initial call)\<lparr>main := Returned (Some Start_error)\<rparr>)"
    using assms by (intro moves.start_fails) (simp_all add: initial_def alive_def)
  with reachable.at_start show ?thesis by (rule reachable.after_step)
qed

lemma scanner_reads_some:
  "reachable call s \<Longrightarrow> alive s \<Longrightarrow> scanner s = Scanning \<Longrightarrow> pipe s = xs @ ys \<Longrightarrow>
   \<forall>l\<in>set xs. length l < MaxScanTokenSize \<Longrightarrow>
   scan_all (the_world call) (the_args call) (catalog_now s) xs = Inr (cat', out) \<Longrightarrow>
   reachable call (s\<lparr>pipe := ys, catalog_now := cat', written := written s @ out\<rparr>)"
proof (induction xs arbitrary: s out)
  case Nil
  then have e: "s\<lparr>pipe := ys, catalog_now := cat', written := written s @ out\<rparr> = s"
    by (cases s) simp
  show ?case by (subst e) (rule Nil.prems(1))
next
  case (Cons x xs)
  from Cons.prems(6) obtain c1 l1 out1 where
    1: "scan_line (the_world call) (the_args call) (catalog_now s) (dropCR x) = Inr (c1, l1)"
    and 2: "scan_all (the_world call) (the_args call) c1 xs = Inr (cat', out1)"
    and 3: "out = l1 # out1"
    by (auto split: sum.splits)
  let ?s1 = "s\<lparr>pipe := xs @ ys, catalog_now := c1, written := written s @ [l1]\<rparr>"
  have "moves call s ?s1"
    using Cons.prems 1 by (intro moves.scan_writes [where l = x]) simp_all
  with Cons.prems(1) have r: "reachable call ?s1" by (rule reachable.after_step)
  have "reachable call (?s1\<lparr>pipe := ys, catalog_now := cat', written := written ?s1 @ out1\<rparr>)"
    using Cons.prems 2 by (intro Cons.IH [OF r]) simp_all
  with 3 show ?case by simp
qed

lemma success_return_reachable:
  assumes "child_starts call" and "child_status call = 0"
    and "\<forall>l\<in>set (child_lines call). length l < MaxScanTokenSize"
    and "scan_all (the_world call) (the_args call) (loaded call) (child_lines call)
           = Inr (cat, out)"
  shows "reachable call
           \<lparr>child = Child_exited, pipe = [], write_end_open = False, catalog_now = cat,
            scanner = Scanner_finished, main = Returned None, written = out\<rparr>"
proof -
  let ?s1 = "(initial call)\<lparr>child := Child_running (child_lines call)\<rparr>"
  have "moves call (initial call) ?s1"
    using assms(1) by (intro moves.start) (simp_all add: initial_def alive_def)
  with reachable.at_start have r1: "reachable call ?s1" by (rule reachable.after_step)
  let ?s2 = "?s1\<lparr>child := Child_running [], pipe := pipe ?s1 @ child_lines call\<rparr>"
  have r2: "reachable call ?s2"
    using child_writes_some [OF r1, of "child_lines call" "[]"]
    by (simp add: initial_def alive_def)
  let ?s3 = "?s2\<lparr>child := Child_exited\<rparr>"
  have "moves call ?s2 ?s3"
    by (intro moves.child_exits) (simp_all add: initial_def alive_def)
  with r2 have r3: "reachable call ?s3" by (rule reachable.after_step)
  let ?s4 = "?s3\<lparr>pipe := [], catalog_now := cat, written := written ?s3 @ out\<rparr>"
  have r4: "reachable call ?s4"
    using assms(3,4)
    by (intro scanner_reads_some [OF r3, where xs = "child_lines call"])
       (simp_all add: initial_def alive_def)
  let ?s5 = "?s4\<lparr>main := Before_Close\<rparr>"
  have "moves call ?s4 ?s5"
    using assms(2) by (intro moves.run_returns_nil) (simp_all add: initial_def alive_def)
  with r4 have r5: "reachable call ?s5" by (rule reachable.after_step)
  let ?s6 = "?s5\<lparr>write_end_open := False, main := Receiving_done\<rparr>"
  have "moves call ?s5 ?s6"
    by (intro moves.close_write_end) (simp_all add: initial_def alive_def)
  with r5 have r6: "reachable call ?s6" by (rule reachable.after_step)
  let ?s7 = "?s6\<lparr>scanner := Sending_done\<rparr>"
  have "moves call ?s6 ?s7"
    by (intro moves.scan_end_of_stream) (simp_all add: initial_def alive_def)
  with r6 have r7: "reachable call ?s7" by (rule reachable.after_step)
  let ?s8 = "?s7\<lparr>scanner := Scanner_finished, main := Returned None\<rparr>"
  have "moves call ?s7 ?s8"
    by (intro moves.done_handed_over) (simp_all add: initial_def alive_def)
  with r7 have "reachable call ?s8" by (rule reachable.after_step)
  then show ?thesis by (simp add: initial_def)
qed

lemma version_line_scanned:
  "scan_all (listing_world []) [''version''] \<lparr>containers = [], volumes = [], images = []\<rparr>
     [''Docker version 20.10'']
   = Inr (\<lparr>containers = [], volumes = [], images = []\<rparr>, [''Docker version 20.10''])"
  by code_simp

lemma finished_state_reachable: "reachable succeeding_child finished_state"
proof -
  have 1: "child_starts succeeding_child" "child_status succeeding_child = 0"
    by (simp_all add: succeeding_child_def)
  have 2: "\<forall>l\<in>set (child_lines succeeding_child). length l < MaxScanTokenSize"
    by (simp add: succeeding_child_def MaxScanTokenSize_def)
  have 3: "scan_all (the_world succeeding_child) (the_args succeeding_child)
             (loaded succeeding_child) (child_lines succeeding_child)
           = Inr (\<lparr>containers = [], volumes = [], images = []\<rparr>, [''Docker version 20.10''])"
    using version_line_scanned by (simp add: succeeding_child_def)
  show ?thesis
    using success_return_reachable [OF 1 2 3] by (simp add: finished_state_def)
qed

text \<open>A line that does not fit the scanner's buffer ends the scanning loop: the call
  can return \<^verbatim>\<open>nil\<close> with that line and those behind it unwritten.\<close>

lemma long_line_ends_scanning:
  assumes "child_starts call" and "child_status call = 0"
    and "child_lines call = l # ls" and "MaxScanTokenSize \<le> length l"
  shows "reachable call
           \<lparr>child = Child_exited, pipe = l # ls, write_end_open = False,
            catalog_now = loaded call, scanner = Scanner_finished, main = Returned None,
            written = []\<rparr>"
proof -
  let ?s1 = "(initial call)\<lparr>child := Child_running (child_lines call)\<rparr>"
  have "moves call (initial call) ?s1"
    using assms(1) by (intro moves.start) (simp_all add: initial_def alive_def)
  with reachable.at_start have r1: "reachable call ?s1" by (rule reachable.after_step)
  let ?s2 = "?s1\<lparr>child := Child_running [], pipe := pipe ?s1 @ child_lines call\<rparr>"
  have r2: "reachable call ?s2"
    using child_writes_some [OF r1, of "child_lines call" "[]"]
    by (simp add: initial_def alive_def)
  let ?s3 = "?s2\<lparr>child := Child_exited\<rparr>"
  have "moves call ?s2 ?s3"
    by (intro moves.child_exits) (simp_all add: initial_def alive_def)
  with r2 have r3: "reachable call ?s3" by (rule reachable.after_step)
  let ?s4 = "?s3\<lparr>scanner := Sending_done\<rparr>"
  have "moves call ?s3 ?s4"
    using assms(3,4)
    by (intro moves.scan_too_long [where l = l and ls = ls])
       (simp_all add: initial_def alive_def)
  with r3 have r4: "reachable call ?s4" by (rule reachable.after_step)
  let ?s5 = "?s4\<lparr>main := Before_Close\<rparr>"
  have "moves call ?s4 ?s5"
    using assms(2) by (intro moves.run_returns_nil) (simp_all add: initial_def alive_def)
  with r4 have r5: "reachable call ?s5" by (rule reachable.after_step)
  let ?s6 = "?s5\<lparr>write_end_open := False, main := Receiving_done\<rparr>"
  have "moves call ?s5 ?s6"
    by (intro moves.close_write_end) (simp_all add: initial_def alive_def)
  with r5 have r6: "reachable call ?s6" by (rule reachable.after_step)
  let ?s7 = "?s6\<lparr>scanner := Scanner_finished, main := Returned None\<rparr>"
  have "moves call ?s6 ?s7"
    by (intro moves.done_handed_over) (simp_all add: initial_def alive_def)
  with r6 have "reachable call ?s7" by (rule reachable.after_step)
  then show ?thesis using assms(3) by (simp add: initial_def)
qed

subsection \<open>The error path\<close>

text \<open>
  Claim C10. In every state a call can reach: when \<^verbatim>\<open>RunDocker\<close> has returned an
  error, it is the error of the child (it could not be started, or it exited with a
  status other than 0), the write end of the pipe is still open and nothing has been
  received from \<^verbatim>\<open>done\<close>. The error return can come before the scanning loop has read
  anything: when the child could not be started, right away; when the child exits with
  a status other than 0, with all its lines still in the pipe and none written. When
  \<^verbatim>\<open>RunDocker\<close> has returned \<^verbatim>\<open>nil\<close>, the child has exited with status 0, the write
  end is closed and \<^verbatim>\<open>done\<close> has been received; and, if no line exceeds the scanner's
  buffer, the loop has written one line for each line of the child: what it writes for
  them in their order.
\<close>

theorem error_return_skips_drain:
  assumes "reachable call s"
  shows "(main s = Returned (Some e) \<longrightarrow>
            write_end_open s \<and> scanner s \<noteq> Scanner_finished
            \<and> ((e = Start_error \<and> \<not> child_starts call)
               \<or> (e = Exit_error (child_status call) \<and> child_status call \<noteq> 0)))
       \<and> (\<not> child_starts call \<longrightarrow>
            reachable call ((initial call)\<lparr>main := Returned (Some Start_error)\<rparr>))
       \<and> (child_starts call \<and> child_status call \<noteq> 0 \<longrightarrow>
            reachable call
              \<lparr>child = Child_exited, pipe = child_lines call, write_end_open = True,
               catalog_now = loaded call, scanner = Scanning,
               main = Returned (Some (Exit_error (child_status call))), written = []\<rparr>)
       \<and> (main s = Returned None \<longrightarrow>
            child_status call = 0 \<and> \<not> write_end_open s \<and> scanner s = Scanner_finished)
       \<and> (main s = Returned None
            \<and> (\<forall>l\<in>set (child_lines call). length l < MaxScanTokenSize) \<longrightarrow>
            (\<exists>cat. scan_all (the_world call) (the_args call) (loaded call) (child_lines call)
                        = Inr (cat, written s))
            \<and> length (written s) = length (child_lines call))"
proof -
  have "main s = Returned None \<longrightarrow>
          child_status call = 0 \<and> \<not> write_end_open s \<and> scanner s = Scanner_finished"
    using handshake_invariant [OF assms] child_exited_after_run [OF assms]
    by (simp add: main_before_close_def main_after_run_def)
  then show ?thesis
    using error_return_leaves_pipe_open [OF assms] error_is_of_child [OF assms]
      start_failure_returns error_return_before_any_line drained_on_success [OF assms]
    by blast
qed

text \<open>A child that writes one line and exits with status 1, in the state in which
  \<^verbatim>\<open>RunDocker\<close> has returned; a child that cannot be started; a child that writes
  one line and exits with status 0, in the state in which \<^verbatim>\<open>RunDocker\<close> has
  returned.\<close>

theorem error_return_skips_drain_witness:
  "reachable failing_child failed_state
   \<and> write_end_open failed_state \<and> scanner failed_state \<noteq> Scanner_finished
   \<and> pipe failed_state = child_lines failing_child \<and> written failed_state = []
   \<and> reachable unstartable_child
        ((initial unstartable_child)\<lparr>main := Returned (Some Start_error)\<rparr>)
   \<and> reachable succeeding_child finished_state
   \<and> child_status succeeding_child = 0
   \<and> written finished_state = [''Docker version 20.10'']
   \<and> length (written finished_state) = length (child_lines succeeding_child)"
proof -
  have f: "child_starts failing_child \<and> child_status failing_child \<noteq> 0"
    by (simp add: failing_child_def)
  have r1: "reachable failing_child failed_state"
    using error_return_skips_drain [OF reachable.at_start, of failing_child] f
    by (simp add: failing_child_def failed_state_def)
  have m1: "main failed_state = Returned (Some (Exit_error 1))"
    by (simp add: failed_state_def)
  have 1: "write_end_open failed_state \<and> scanner failed_state \<noteq> Scanner_finished"
    using error_return_skips_drain [OF r1, of "Exit_error 1"] m1 by simp
  have m2: "main finished_state = Returned None
            \<and> (\<forall>l\<in>set (child_lines succeeding_child). length l < MaxScanTokenSize)"
    by (simp add: finished_state_def succeeding_child_def MaxScanTokenSize_def)
  have 2: "child_status succeeding_child = 0
           \<and> length (written finished_state) = length (child_lines succeeding_child)"
    using error_return_skips_drain [OF finished_state_reachable] m2 by simp
  have 3: "reachable unstartable_child
             ((initial unstartable_child)\<lparr>main := Returned (Some Start_error)\<rparr>)"
    using error_return_skips_drain [OF reachable.at_start, of unstartable_child]
    by (simp add: unstartable_child_def)
  from r1 1 2 3 finished_state_reachable show ?thesis
    by (simp add: failed_state_def finished_state_def failing_child_def)
qed

subsection \<open>Draining\<close>

text \<open>
  Claim C2 at a failing input. The child writes two lines and exits with status 2. The
  state below can be reached: \<^verbatim>\<open>RunDocker\<close> has returned the error, both lines are
  still in the pipe and no line has been written to standard output. (When the child
  exits with status 0 the claim holds for lines that fit the scanner's buffer: lemma
  \<open>drained_on_success\<close>.)
\<close>

theorem returns_before_lines_written:
  "reachable interrupted_child
     \<lparr>child = Child_exited,
      pipe = [''Using default tag: latest'', ''Pulling from library/nginx''],
      write_end_open = True,
      catalog_now = \<lparr>containers = [], volumes = [], images = []\<rparr>, scanner = Scanning,
      main = Returned (Some (Exit_error 2)), written = []\<rparr>"
  using error_return_before_any_line [of interrupted_child]
  by (simp add: interrupted_child_def)

section \<open>The decoration format\<close>

text \<open>
  Claim C3, as the code has it. What is written for a match is the expansion of the
  template \<open>enhance kind ''$1'' ident\<close> with the text of the match. Whenever the template
  expands, the expansion is the hyperlink envelope around the text of the match, which
  stays as it is between the opening and the closing sequence, and the URI in the opening
  sequence is \<^verbatim>\<open>docker-desktop://dashboard/<kind>?id=<opaque-id>\<close>: the opaque
  identifier is a query parameter, not a further path segment. It is the identifier of
  the record when that has no dollar sign (a dollar sign in it is read as part of the
  template). For a volume, a container and an image with plain names, the line the
  rewrite gives is the line with every match replaced by that hyperlink around it.
\<close>

theorem decoration_of_match:
  assumes "kind \<in> set [''containers'', ''volumes'', ''images'']"
  shows "(expand (enhance kind ''$1'' ident) m = Some d
            \<longrightarrow> (\<exists>ident'. d = hyperlink (deeplink kind ident') m))
       \<and> (CHR ''$'' \<notin> set ident
            \<longrightarrow> expand (enhance kind ''$1'' ident) m = Some (hyperlink (deeplink kind ident) m))
       \<and> (plain (Name v) \<and> Name v \<noteq> []
            \<longrightarrow> rewrite_volume v src =
                  Inr (replace_matches (lits (Name v))
                         (hyperlink (deeplink ''volumes'' (Name v))) src))
       \<and> (plain (ShortId c) \<and> ShortId c \<noteq> [] \<and> plain (Names c) \<and> Names c \<noteq> []
              \<and> CHR ''$'' \<notin> set (ID c)
            \<longrightarrow> rewrite_container c src =
                  Inr (replace_matches (lits (Names c))
                         (hyperlink (deeplink ''containers'' (ID c)))
                         (replace_matches (lits (ShortId c) @ [id_class])
                            (hyperlink (deeplink ''containers'' (ID c))) src)))
       \<and> (plain (Respository i) \<and> Respository i \<noteq> [] \<and> CHR ''$'' \<notin> set (img_ID i)
              \<and> CHR ''$'' \<notin> set (Tag i) \<and> Contains src (Respository i)
            \<longrightarrow> rewrite_image i src =
                  Inr (replace_matches (lits (Respository i))
                         (hyperlink (deeplink ''images''
                            (img_ID i @ ''-'' @ (if Contains src (Tag i) then Tag i else ''latest''))))
                         src))"
proof (intro conjI impI)
  have k: "CHR ''$'' \<notin> set kind" using assms by auto
  {
    assume "expand (enhance kind ''$1'' ident) m = Some d"
    with expand_enhance_any [OF k, of ident m]
    show "\<exists>ident'. d = hyperlink (deeplink kind ident') m" by auto
  next
    assume "CHR ''$'' \<notin> set ident"
    with k show "expand (enhance kind ''$1'' ident) m = Some (hyperlink (deeplink kind ident) m)"
      by (rule expand_enhance_hyperlink)
  }
next
  assume a: "plain (Name v) \<and> Name v \<noteq> []"
  have k: "CHR ''$'' \<notin> set ''volumes''" by simp
  from a have "ReplaceAllString (''('' @ Name v @ '')'') src (enhance ''volumes'' ''$1'' (Name v))
                 = Inr (replace_matches (lits (Name v) @ [])
                          (hyperlink (deeplink ''volumes'' (Name v))) src)"
    by (intro ReplaceAllString_replace_matches compile_literal' k plain_no_dollar) simp_all
  then show "rewrite_volume v src =
               Inr (replace_matches (lits (Name v)) (hyperlink (deeplink ''volumes'' (Name v))) src)"
    by (simp add: rewrite_volume_def)
next
  assume a: "plain (ShortId c) \<and> ShortId c \<noteq> [] \<and> plain (Names c) \<and> Names c \<noteq> []
              \<and> CHR ''$'' \<notin> set (ID c)"
  let ?f = "hyperlink (deeplink ''containers'' (ID c))"
  have k: "CHR ''$'' \<notin> set ''containers''" by simp
  from a have 1: "ReplaceAllString (''('' @ ShortId c @ ''[a-z0-9]*'' @ '')'') src
                    (enhance ''containers'' ''$1'' (ID c))
                 = Inr (replace_matches (lits (ShortId c) @ [id_class]) ?f src)"
    by (intro ReplaceAllString_replace_matches compile_identifier k) simp_all
  from a have 2: "ReplaceAllString (''('' @ Names c @ '')'') line1
                    (enhance ''containers'' ''$1'' (ID c))
                 = Inr (replace_matches (lits (Names c) @ []) ?f line1)" for line1
    by (intro ReplaceAllString_replace_matches compile_literal' k) simp_all
  show "rewrite_container c src =
          Inr (replace_matches (lits (Names c)) ?f
                 (replace_matches (lits (ShortId c) @ [id_class]) ?f src))"
    unfolding rewrite_container_def by (simp only: 1 2 sum.case) simp
next
  assume a: "plain (Respository i) \<and> Respository i \<noteq> [] \<and> CHR ''$'' \<notin> set (img_ID i)
              \<and> CHR ''$'' \<notin> set (Tag i) \<and> Contains src (Respository i)"
  have k: "CHR ''$'' \<notin> set ''images''" by simp
  from a have 1: "ReplaceAllString (''('' @ Respository i @ '')'') src
                    (enhance ''images'' ''$1'' (img_ID i @ ''-'' @ t))
                 = Inr (replace_matches (lits (Respository i) @ [])
                          (hyperlink (deeplink ''images'' (img_ID i @ ''-'' @ t))) src)"
    if "CHR ''$'' \<notin> set t" for t
    using that by (intro ReplaceAllString_replace_matches compile_literal' k) simp_all
  show "rewrite_image i src =
          Inr (replace_matches (lits (Respository i))
                 (hyperlink (deeplink ''images''
                    (img_ID i @ ''-'' @ (if Contains src (Tag i) then Tag i else ''latest''))))
                 src)"
  proof (cases "Contains src (Tag i)")
    case True
    with a 1 [of "Tag i"] show ?thesis by (simp add: rewrite_image_def)
  next
    case False
    with a 1 [of "''latest''"] show ?thesis by (simp add: rewrite_image_def)
  qed
qed

text \<open>An identifier with \<^verbatim>\<open>$$\<close>, which the template reads as one dollar sign; the
  identifier of a container; and the rewrites for a volume, a container and an image on
  lines in which their names occur.\<close>

theorem decoration_of_match_witness:
  "expand (enhance ''images'' ''$1'' ''ab$$cd'') ''app''
     = Some (hyperlink (deeplink ''images'' ''ab$cd'') ''app'')
   \<and> (\<exists>ident'. hyperlink (deeplink ''images'' ''ab$cd'') ''app''
                  = hyperlink (deeplink ''images'' ident') ''app'')
   \<and> expand (enhance ''containers'' ''$1'' (ID web)) ''0123456789ab''
       = Some (hyperlink (deeplink ''containers'' (ID web)) ''0123456789ab'')
   \<and> rewrite_volume data_volume ''data and metadata''
       = Inr (hyperlink (deeplink ''volumes'' ''data'') ''data'' @ '' and meta''
              @ hyperlink (deeplink ''volumes'' ''data'') ''data'')
   \<and> rewrite_container web ''web 0123456789abcd''
       = Inr (hyperlink (deeplink ''containers'' (ID web)) ''web'' @ '' ''
              @ hyperlink (deeplink ''containers'' (ID web)) ''0123456789abcd'')
   \<and> rewrite_image nginx ''nginx 1.25''
       = Inr (hyperlink (deeplink ''images'' (img_ID nginx @ ''-1.25'')) ''nginx'' @ '' 1.25'')"
proof -
  have 1: "expand (enhance ''images'' ''$1'' ''ab$$cd'') ''app''
             = Some (hyperlink (deeplink ''images'' ''ab$cd'') ''app'')"
    by code_simp
  have 2: "CHR ''$'' \<notin> set (ID web)"
    by code_simp
  have 3: "plain (Name data_volume) \<and> Name data_volume \<noteq> []"
    "replace_matches (lits (Name data_volume))
       (hyperlink (deeplink ''volumes'' (Name data_volume))) ''data and metadata''
     = hyperlink (deeplink ''volumes'' ''data'') ''data'' @ '' and meta''
              @ hyperlink (deeplink ''volumes'' ''data'') ''data''"
    by code_simp+
  have 4: "plain (ShortId web) \<and> ShortId web \<noteq> [] \<and> plain (Names web) \<and> Names web \<noteq> []
              \<and> CHR ''$'' \<notin> set (ID web)"
    "replace_matches (lits (Names web)) (hyperlink (deeplink ''containers'' (ID web)))
       (replace_matches (lits (ShortId web) @ [id_class])
          (hyperlink (deeplink ''containers'' (ID web))) ''web 0123456789abcd'')
     = hyperlink (deeplink ''containers'' (ID web)) ''web'' @ '' ''
              @ hyperlink (deeplink ''containers'' (ID web)) ''0123456789abcd''"
    by code_simp+
  have 5: "plain (Respository nginx) \<and> Respository nginx \<noteq> [] \<and> CHR ''$'' \<notin> set (img_ID nginx)
              \<and> CHR ''$'' \<notin> set (Tag nginx) \<and> Contains ''nginx 1.25'' (Respository nginx)"
    "Contains ''nginx 1.25'' (Tag nginx)"
    "replace_matches (lits (Respository nginx))
       (hyperlink (deeplink ''images'' (img_ID nginx @ ''-'' @ Tag nginx))) ''nginx 1.25''
     = hyperlink (deeplink ''images'' (img_ID nginx @ ''-1.25'')) ''nginx'' @ '' 1.25''"
    by code_simp+
  have k: "''images'' \<in> set [''containers'', ''volumes'', ''images'']"
    "''containers'' \<in> set [''containers'', ''volumes'', ''images'']"
    by simp_all
  note a = decoration_of_match [OF k(1), where ident = "''ab$$cd''" and m = "''app''"
      and d = "hyperlink (deeplink ''images'' ''ab$cd'') ''app''"
      and v = data_volume and c = web and i = nginx and src = "''nginx 1.25''"]
  note b = decoration_of_match [OF k(2), where ident = "ID web" and m = "''0123456789ab''"
      and v = data_volume and c = web and i = nginx and src = "''data and metadata''"]
  note c = decoration_of_match [OF k(2), where ident = "ID web" and m = "''0123456789ab''"
      and v = data_volume and c = web and i = nginx and src = "''web 0123456789abcd''"]
  have c1: "\<exists>ident'. hyperlink (deeplink ''images'' ''ab$cd'') ''app''
                  = hyperlink (deeplink ''images'' ident') ''app''"
    by (rule a [THEN conjunct1, THEN mp, OF 1])
  have c5: "rewrite_image nginx ''nginx 1.25''
       = Inr (hyperlink (deeplink ''images'' (img_ID nginx @ ''-1.25'')) ''nginx'' @ '' 1.25'')"
    using a [THEN conjunct2, THEN conjunct2, THEN conjunct2, THEN conjunct2, THEN mp, OF 5(1)]
    by (simp only: 5(2) 5(3) if_True)
  have c2: "expand (enhance ''containers'' ''$1'' (ID web)) ''0123456789ab''
       = Some (hyperlink (deeplink ''containers'' (ID web)) ''0123456789ab'')"
    by (rule b [THEN conjunct2, THEN conjunct1, THEN mp, OF 2])
  have c3: "rewrite_volume data_volume ''data and metadata''
       = Inr (hyperlink (deeplink ''volumes'' ''data'') ''data'' @ '' and meta''
              @ hyperlink (deeplink ''volumes'' ''data'') ''data'')"
    using b [THEN conjunct2, THEN conjunct2, THEN conjunct1, THEN mp, OF 3(1)]
    by (simp only: 3(2))
  have c4: "rewrite_container web ''web 0123456789abcd''
       = Inr (hyperlink (deeplink ''containers'' (ID web)) ''web'' @ '' ''
              @ hyperlink (deeplink ''containers'' (ID web)) ''0123456789abcd'')"
    using c [THEN conjunct2, THEN conjunct2, THEN conjunct2, THEN conjunct1, THEN mp, OF 4(1)]
    by (simp only: 4(2))
  from 1 c1 c2 c3 c4 c5 show ?thesis by (intro conjI)
qed

text \<open>
  Claim C3 as the specification words it asks for a URI of the form
  \<^verbatim>\<open><scheme>://dashboard/<kind>/<opaque-id>\<close>. In the line the rewrite for the
  volume \<^verbatim>\<open>data\<close> gives, no such path occurs anywhere, whatever the scheme.
\<close>

theorem uri_form_counterexample:
  "(case rewrite_volume data_volume ''data and metadata'' of
      Inl e \<Rightarrow> False
    | Inr out \<Rightarrow> \<not> Contains out ''://dashboard/volumes/data'')"
  by code_simp

end
